theory Spec2Isabelle
  imports
    Main
    "HOL-Library.AList"
    "HOL-Library.Multiset"
    "HOL-Library.Product_Lexorder"
begin

section \<open>Station uptime calculator: the data model\<close>

text \<open>
  The program is \<^verbatim>\<open>station_uptime.py\<close>. Python integers are unbounded, so every
  identifier and time is an \<^typ>\<open>int\<close>. A Python \<^verbatim>\<open>dict\<close> keeps its items in insertion
  order and its keys distinct: it is modelled as the association list of its items,
  read with \<^const>\<open>map_of\<close> and written with \<^const>\<open>AList.update\<close>, which replaces the
  value of a present key in place and appends a new key at the end, as the
  assignment \<^verbatim>\<open>d[k] = v\<close> does.
\<close>

type_synonym interval = "int \<times> int"

type_synonym report = "int \<times> int \<times> int \<times> bool"

type_synonym station_report = "int \<times> int \<times> bool"

type_synonym stations = "(int \<times> int list) list"

text \<open>The only exception the calculator can raise is the \<^verbatim>\<open>KeyError\<close> of a failed
  dictionary lookup; it carries the missing key.\<close>

datatype calc_error = KeyError int

section \<open>Interval merging\<close>

text \<open>
  One round of the loop of \<^verbatim>\<open>merge_intervals\<close>: \<^verbatim>\<open>merged[-1]\<close> is the last element of
  the list built so far, which is either replaced by its extension or followed by the
  incoming interval.
\<close>

fun merge_step :: "interval list \<Rightarrow> interval \<Rightarrow> interval list" where
  "merge_step merged (start, fin) =
     (case last merged of (last_start, last_end) \<Rightarrow>
        if start \<le> last_end then butlast merged @ [(last_start, max last_end fin)]
        else merged @ [(start, fin)])"

text \<open>\<^verbatim>\<open>sorted(intervals)\<close> orders the pairs lexicographically, which is the order of
  \<^typ>\<open>int \<times> int\<close> here.\<close>

definition merge_intervals :: "interval list \<Rightarrow> interval list" where
  "merge_intervals intervals =
     (if intervals = [] then []
      else (let sorted_intervals = sort intervals
            in foldl merge_step [hd sorted_intervals] (tl sorted_intervals)))"

definition calculate_total_time :: "interval list \<Rightarrow> int" where
  "calculate_total_time intervals = (\<Sum>(start, fin) \<leftarrow> intervals. fin - start)"

section \<open>Uptime per station\<close>

text \<open>The first loop of \<^verbatim>\<open>calculate_station_uptime\<close>: every charger of every station is
  entered into \<^verbatim>\<open>charger_to_station\<close>, a later entry overwriting an earlier one.\<close>

definition build_charger_to_station :: "stations \<Rightarrow> (int \<times> int) list" where
  "build_charger_to_station sts =
     foldl (\<lambda>c2s (station_id, charger_ids).
              foldl (\<lambda>m charger_id. AList.update charger_id station_id m) c2s charger_ids)
       [] sts"

text \<open>The comprehension \<^verbatim>\<open>{sid: [] for sid in stations}\<close>.\<close>

definition empty_station_reports :: "stations \<Rightarrow> (int \<times> station_report list) list" where
  "empty_station_reports sts =
     foldl (\<lambda>d (station_id, charger_ids). AList.update station_id [] d) [] sts"

text \<open>The grouping loop. Both subscriptions raise \<^verbatim>\<open>KeyError\<close> on a missing key.\<close>

fun group_reports ::
  "(int \<times> int) list \<Rightarrow> (int \<times> station_report list) list \<Rightarrow> report list
     \<Rightarrow> calc_error + (int \<times> station_report list) list" where
  "group_reports c2s station_reports [] = Inr station_reports"
| "group_reports c2s station_reports ((charger_id, start_time, end_time, is_up) # rest) =
     (case map_of c2s charger_id of
        None \<Rightarrow> Inl (KeyError charger_id)
      | Some station_id \<Rightarrow>
          (case map_of station_reports station_id of
             None \<Rightarrow> Inl (KeyError station_id)
           | Some rs \<Rightarrow>
               group_reports c2s
                 (AList.update station_id (rs @ [(start_time, end_time, is_up)]) station_reports)
                 rest))"

text \<open>The body of the last loop for one station whose list of reports is \<open>rs\<close>. The
  minimum and maximum are taken only of a non-empty list, after the test for the
  empty one.\<close>

definition station_uptime :: "station_report list \<Rightarrow> int" where
  "station_uptime reports_for_station =
     (case reports_for_station of
        [] \<Rightarrow> 0
      | r # rest \<Rightarrow>
          (let min_start = foldl min (fst r) (map fst rest);
               max_end = foldl max (fst (snd r)) (map (\<lambda>x. fst (snd x)) rest);
               total_time = max_end - min_start;
               up_intervals = map (\<lambda>(start_time, end_time, is_up). (start_time, end_time))
                                (filter (\<lambda>(start_time, end_time, is_up). is_up)
                                   reports_for_station);
               merged_up = merge_intervals up_intervals;
               up_time = calculate_total_time merged_up
           in if total_time = 0 then 0 else (up_time * 100) div total_time))"

fun uptime_loop ::
  "(int \<times> station_report list) list \<Rightarrow> (int \<times> int) list \<Rightarrow> stations
     \<Rightarrow> calc_error + (int \<times> int) list" where
  "uptime_loop station_reports uptimes [] = Inr uptimes"
| "uptime_loop station_reports uptimes ((station_id, charger_ids) # rest) =
     (case map_of station_reports station_id of
        None \<Rightarrow> Inl (KeyError station_id)
      | Some reports_for_station \<Rightarrow>
          uptime_loop station_reports
            (AList.update station_id (station_uptime reports_for_station) uptimes) rest)"

definition calculate_station_uptime ::
  "stations \<Rightarrow> report list \<Rightarrow> calc_error + (int \<times> int) list" where
  "calculate_station_uptime sts reports =
     (let charger_to_station = build_charger_to_station sts in
      case group_reports charger_to_station (empty_station_reports sts) reports of
        Inl e \<Rightarrow> Inl e
      | Inr station_reports \<Rightarrow> uptime_loop station_reports [] sts)"

section \<open>Specification-level notions\<close>

text \<open>
  The sweep of \<^const>\<open>merge_intervals\<close> written as a recursion that carries the running
  merged interval \<open>cur\<close>; it is proved equal to the loop and used to reason about it.
\<close>

fun sweep :: "interval \<Rightarrow> interval list \<Rightarrow> interval list" where
  "sweep cur [] = [cur]"
| "sweep cur (x # xs) =
     (if fst x \<le> snd cur then sweep (fst cur, max (snd cur) (snd x)) xs
      else cur # sweep x xs)"

text \<open>
  The union of a list of intervals is the set of time points \<open>t\<close> with
  \<open>start \<le> t < fin\<close> for some interval of the list; its length is the number of
  these points. A pair with \<open>fin \<le> start\<close> covers nothing.
\<close>

definition covered :: "interval list \<Rightarrow> int set" where
  "covered ivs = (\<Union>(s, e) \<in> set ivs. {s..<e})"

definition union_length :: "interval list \<Rightarrow> int" where
  "union_length ivs = int (card (covered ivs))"

text \<open>
  The charger list the dictionary holds for a station, and every charger of every
  station in the order of declaration.
\<close>

definition station_chargers :: "stations \<Rightarrow> int \<Rightarrow> int list" where
  "station_chargers sts sid = (case map_of sts sid of None \<Rightarrow> [] | Some cs \<Rightarrow> cs)"

definition all_chargers :: "stations \<Rightarrow> int list" where
  "all_chargers sts = concat (map snd sts)"

text \<open>
  The reports of a station, in the words of the specification: the reports whose
  charger belongs to the station's charger list, without the charger.
\<close>

definition reports_of :: "stations \<Rightarrow> report list \<Rightarrow> int \<Rightarrow> station_report list" where
  "reports_of sts reports sid =
     map snd (filter (\<lambda>r. fst r \<in> set (station_chargers sts sid)) reports)"

text \<open>The reports the grouping loop hands to a station: those whose charger the
  dictionary \<open>c2s\<close> maps to it.\<close>

definition grouped :: "(int \<times> int) list \<Rightarrow> int \<Rightarrow> report list \<Rightarrow> station_report list" where
  "grouped c2s sid reports = map snd (filter (\<lambda>r. map_of c2s (fst r) = Some sid) reports)"

text \<open>The \<^verbatim>\<open>isUp = true\<close> reports of a station as intervals, and the station's observed
  window: from the earliest start to the latest end over all its reports.\<close>

definition up_intervals :: "station_report list \<Rightarrow> interval list" where
  "up_intervals rs = map (\<lambda>(s, e, u). (s, e)) (filter (\<lambda>(s, e, u). u) rs)"

definition window_start :: "station_report list \<Rightarrow> int" where
  "window_start rs = Min (fst ` set rs)"

definition window_end :: "station_report list \<Rightarrow> int" where
  "window_end rs = Max ((\<lambda>r. fst (snd r)) ` set rs)"

text \<open>One round of the outer loop that builds \<^verbatim>\<open>charger_to_station\<close>.\<close>

definition c2s_step :: "(int \<times> int) list \<Rightarrow> int \<times> int list \<Rightarrow> (int \<times> int) list" where
  "c2s_step c2s x = foldl (\<lambda>m c. AList.update c (fst x) m) c2s (snd x)"

text \<open>
  The invariants the parser establishes for its result: station identifiers are
  distinct, no charger is listed twice anywhere, every report names a listed charger
  and starts strictly before it ends.
\<close>

definition parser_invariants :: "stations \<Rightarrow> report list \<Rightarrow> bool" where
  "parser_invariants sts reports \<longleftrightarrow>
     distinct (map fst sts) \<and> distinct (all_chargers sts) \<and>
     (\<forall>r \<in> set reports. fst r \<in> set (all_chargers sts) \<and> fst (snd r) < fst (snd (snd r)))"


section \<open>The parser\<close>

text \<open>
  A line of the file is a \<^typ>\<open>string\<close>: a list of characters, each a code point below
  256. The built-in string operations the parser calls are modelled for such text:
  \<^verbatim>\<open>str.strip\<close>, \<^verbatim>\<open>str.split\<close> without argument, \<^verbatim>\<open>str.lower\<close> and \<^verbatim>\<open>int\<close>. The code
  points below 256 that Python takes for white space are 9 to 13, 28 to 32, 133 and 160.
\<close>

definition is_space :: "char \<Rightarrow> bool" where
  "is_space c \<longleftrightarrow>
     (9 \<le> (of_char c :: nat) \<and> (of_char c :: nat) \<le> 13) \<or>
     (28 \<le> (of_char c :: nat) \<and> (of_char c :: nat) \<le> 32) \<or>
     (of_char c :: nat) = 133 \<or> (of_char c :: nat) = 160"

definition py_strip :: "string \<Rightarrow> string" where
  "py_strip s = rev (dropWhile is_space (rev (dropWhile is_space s)))"

fun split_from :: "string \<Rightarrow> string \<Rightarrow> string list" where
  "split_from cur [] = (if cur = [] then [] else [cur])"
| "split_from cur (c # cs) =
     (if is_space c then (if cur = [] then split_from [] cs else cur # split_from [] cs)
      else split_from (cur @ [c]) cs)"

definition py_split :: "string \<Rightarrow> string list" where
  "py_split s = split_from [] s"

text \<open>The letters with a lower-case form below code point 256 are \<^verbatim>\<open>A\<close> to \<^verbatim>\<open>Z\<close> and the
  code points 192 to 222 without 215; the lower-case form is 32 higher.\<close>

definition py_lower :: "string \<Rightarrow> string" where
  "py_lower s =
     map (\<lambda>c. if (65 \<le> (of_char c :: nat) \<and> (of_char c :: nat) \<le> 90) \<or>
                  (192 \<le> (of_char c :: nat) \<and> (of_char c :: nat) \<le> 222 \<and>
                   (of_char c :: nat) \<noteq> 215)
               then char_of ((of_char c :: nat) + 32) else c) s"

text \<open>
  \<^verbatim>\<open>int(token)\<close> in base 10 raises \<^verbatim>\<open>ValueError\<close> in two ways: with the message
  \<^verbatim>\<open>invalid literal for int() ...\<close>, and, when the token has more decimal digits than the
  interpreter's limit of 4300, with the message
  \<^verbatim>\<open>Exceeds the limit (4300 digits) for integer string conversion: value has d digits ...\<close>.
\<close>

datatype int_error = Invalid_literal | Exceeds_digit_limit nat

definition is_digit :: "char \<Rightarrow> bool" where
  "is_digit c \<longleftrightarrow> 48 \<le> (of_char c :: nat) \<and> (of_char c :: nat) \<le> 57"

definition digit_of :: "char \<Rightarrow> nat" where
  "digit_of c = of_char c - 48"

text \<open>
  The scan over the run of digits and underscores at the start of a string: \<open>v\<close> is the
  value read so far, \<open>d\<close> the number of digits read, and the flag tells whether the last
  character read was an underscore. Two underscores in a row and an underscore at the
  end of the run are refused with \<open>None\<close>; otherwise the value, the count of digits and
  the rest of the string are returned.
\<close>

fun scan_digits :: "nat \<Rightarrow> nat \<Rightarrow> bool \<Rightarrow> string \<Rightarrow> (nat \<times> nat \<times> string) option" where
  "scan_digits v d after_underscore [] = (if after_underscore then None else Some (v, d, []))"
| "scan_digits v d after_underscore (c # cs) =
     (if is_digit c then scan_digits (v * 10 + digit_of c) (Suc d) False cs
      else if c = CHR ''_'' then (if after_underscore then None else scan_digits v d True cs)
      else if after_underscore then None else Some (v, d, c # cs))"

text \<open>
  The digits after the sign. A leading underscore is refused, then the run is scanned;
  the limit on the digits is tested before the rest of the string is looked at, so a
  run of more than 4300 digits raises the limit error whatever follows it. Leading
  zeros count as digits, underscores do not.
\<close>

definition py_int_unsigned :: "string \<Rightarrow> int_error + nat" where
  "py_int_unsigned s =
     (case s of
        [] \<Rightarrow> Inl Invalid_literal
      | c # cs \<Rightarrow>
          if c = CHR ''_'' then Inl Invalid_literal
          else (case scan_digits 0 0 False s of
                  None \<Rightarrow> Inl Invalid_literal
                | Some (v, d, rest) \<Rightarrow>
                    if d > 4300 then Inl (Exceeds_digit_limit d)
                    else if d = 0 \<or> rest \<noteq> [] then Inl Invalid_literal
                    else Inr v))"

definition py_int :: "string \<Rightarrow> int_error + int" where
  "py_int s =
     (case s of
        [] \<Rightarrow> Inl Invalid_literal
      | c # cs \<Rightarrow>
          if c = CHR ''-'' then map_sum id (\<lambda>n. - int n) (py_int_unsigned cs)
          else if c = CHR ''+'' then map_sum id int (py_int_unsigned cs)
          else map_sum id int (py_int_unsigned s))"

text \<open>
  Every exception that leaves \<^verbatim>\<open>parse_input_file\<close> is a constructor that carries the
  values its message interpolates: the file path, the text of the I/O error, an
  identifier, the line number. The last two are the exceptions of the library that the
  function lets pass as they are: the limit error of \<^verbatim>\<open>int\<close> with its count of digits,
  and a \<^verbatim>\<open>ValueError\<close> of \<^verbatim>\<open>open\<close> or \<^verbatim>\<open>readlines\<close> with its message.
\<close>

datatype parse_error =
    Input_file_not_found string
  | Error_reading_input_file string
  | Invalid_station_line nat
  | Station_id_out_of_range nat
  | Charger_id_out_of_range nat
  | Duplicate_charger_id int nat
  | Duplicate_station_id int nat
  | Invalid_integer nat
  | Invalid_report_format nat
  | Start_time_out_of_range nat
  | End_time_out_of_range nat
  | Invalid_up_value nat
  | Invalid_time_range nat
  | Unknown_charger_id int nat
  | Data_before_section_header nat
  | No_stations_defined
  | Digit_limit_exceeded nat
  | Unwrapped_read_error string

text \<open>The line number a message reports, if it reports one.\<close>

fun error_line :: "parse_error \<Rightarrow> nat option" where
  "error_line (Input_file_not_found p) = None"
| "error_line (Error_reading_input_file e) = None"
| "error_line (Invalid_station_line n) = Some n"
| "error_line (Station_id_out_of_range n) = Some n"
| "error_line (Charger_id_out_of_range n) = Some n"
| "error_line (Duplicate_charger_id c n) = Some n"
| "error_line (Duplicate_station_id s n) = Some n"
| "error_line (Invalid_integer n) = Some n"
| "error_line (Invalid_report_format n) = Some n"
| "error_line (Start_time_out_of_range n) = Some n"
| "error_line (End_time_out_of_range n) = Some n"
| "error_line (Invalid_up_value n) = Some n"
| "error_line (Invalid_time_range n) = Some n"
| "error_line (Unknown_charger_id c n) = Some n"
| "error_line (Data_before_section_header n) = Some n"
| "error_line No_stations_defined = None"
| "error_line (Digit_limit_exceeded d) = None"
| "error_line (Unwrapped_read_error m) = None"

text \<open>
  The handler \<^verbatim>\<open>except ValueError as e\<close> around the conversions of a line: an error
  whose message contains \<^verbatim>\<open>invalid literal\<close> is replaced by the invalid-integer error
  with the line number, every other one is raised again as it is.
\<close>

fun int_failure :: "nat \<Rightarrow> int_error \<Rightarrow> parse_error" where
  "int_failure line_num Invalid_literal = Invalid_integer line_num"
| "int_failure line_num (Exceeds_digit_limit d) = Digit_limit_exceeded d"

datatype file_section = Stations_section | Reports_section

text \<open>The local variables of \<^verbatim>\<open>parse_input_file\<close> that live across the lines.\<close>

record parser_state =
  p_stations :: stations
  p_reports :: "report list"
  current_section :: "file_section option"
  p_charger_to_station :: "(int \<times> int) list"

definition initial_state :: parser_state where
  "initial_state =
     \<lparr>p_stations = [], p_reports = [], current_section = None, p_charger_to_station = []\<rparr>"

text \<open>The loop over the charger tokens of a station line.\<close>

fun parse_chargers ::
  "nat \<Rightarrow> int \<Rightarrow> string list \<Rightarrow> (int \<times> int) list \<Rightarrow> int list
     \<Rightarrow> parse_error + ((int \<times> int) list \<times> int list)" where
  "parse_chargers line_num station_id [] c2s charger_ids = Inr (c2s, charger_ids)"
| "parse_chargers line_num station_id (part # parts) c2s charger_ids =
     (case py_int part of
        Inl err \<Rightarrow> Inl (int_failure line_num err)
      | Inr charger_id \<Rightarrow>
          if charger_id < 0 \<or> charger_id > 4294967295
          then Inl (Charger_id_out_of_range line_num)
          else if map_of c2s charger_id \<noteq> None
          then Inl (Duplicate_charger_id charger_id line_num)
          else parse_chargers line_num station_id parts
                 (AList.update charger_id station_id c2s) (charger_ids @ [charger_id]))"

definition parse_station_line :: "nat \<Rightarrow> string \<Rightarrow> parser_state \<Rightarrow> parse_error + parser_state" where
  "parse_station_line line_num line st =
     (case py_split line of
        [] \<Rightarrow> Inl (Invalid_station_line line_num)
      | part0 # parts \<Rightarrow>
          (case py_int part0 of
             Inl err \<Rightarrow> Inl (int_failure line_num err)
           | Inr station_id \<Rightarrow>
               if station_id < 0 \<or> station_id > 4294967295
               then Inl (Station_id_out_of_range line_num)
               else (case parse_chargers line_num station_id parts (p_charger_to_station st) [] of
                       Inl e \<Rightarrow> Inl e
                     | Inr (c2s, charger_ids) \<Rightarrow>
                         if map_of (p_stations st) station_id \<noteq> None
                         then Inl (Duplicate_station_id station_id line_num)
                         else Inr (st\<lparr>p_stations :=
                                        AList.update station_id charger_ids (p_stations st),
                                      p_charger_to_station := c2s\<rparr>))))"

definition parse_report_line :: "nat \<Rightarrow> string \<Rightarrow> parser_state \<Rightarrow> parse_error + parser_state" where
  "parse_report_line line_num line st =
     (let parts = py_split line in
      if length parts \<noteq> 4 then Inl (Invalid_report_format line_num)
      else
        (case py_int (parts ! 0) of
           Inl err \<Rightarrow> Inl (int_failure line_num err)
         | Inr charger_id \<Rightarrow>
        (case py_int (parts ! 1) of
           Inl err \<Rightarrow> Inl (int_failure line_num err)
         | Inr start_time \<Rightarrow>
        (case py_int (parts ! 2) of
           Inl err \<Rightarrow> Inl (int_failure line_num err)
         | Inr end_time \<Rightarrow>
            (let up_str = py_lower (parts ! 3) in
             if charger_id < 0 \<or> charger_id > 4294967295
             then Inl (Charger_id_out_of_range line_num)
             else if start_time < 0 \<or> start_time > 18446744073709551615
             then Inl (Start_time_out_of_range line_num)
             else if end_time < 0 \<or> end_time > 18446744073709551615
             then Inl (End_time_out_of_range line_num)
             else if up_str \<noteq> ''true'' \<and> up_str \<noteq> ''false''
             then Inl (Invalid_up_value line_num)
             else if start_time \<ge> end_time
             then Inl (Invalid_time_range line_num)
             else if map_of (p_charger_to_station st) charger_id = None
             then Inl (Unknown_charger_id charger_id line_num)
             else Inr (st\<lparr>p_reports :=
                            p_reports st @ [(charger_id, start_time, end_time, up_str = ''true'')]\<rparr>))))))"

text \<open>The body of the loop over the lines, for the line \<open>raw\<close> with number \<open>line_num\<close>.\<close>

definition parse_line :: "nat \<Rightarrow> string \<Rightarrow> parser_state \<Rightarrow> parse_error + parser_state" where
  "parse_line line_num raw st =
     (let line = py_strip raw in
      if line = [] then Inr st
      else if line = ''[Stations]'' then Inr (st\<lparr>current_section := Some Stations_section\<rparr>)
      else if line = ''[Charger Availability Reports]''
      then Inr (st\<lparr>current_section := Some Reports_section\<rparr>)
      else (case current_section st of
              Some Stations_section \<Rightarrow> parse_station_line line_num line st
            | Some Reports_section \<Rightarrow> parse_report_line line_num line st
            | None \<Rightarrow> Inl (Data_before_section_header line_num)))"

fun parse_lines :: "nat \<Rightarrow> string list \<Rightarrow> parser_state \<Rightarrow> parse_error + parser_state" where
  "parse_lines line_num [] st = Inr st"
| "parse_lines line_num (raw # rest) st =
     (case parse_line line_num raw st of
        Inl e \<Rightarrow> Inl e
      | Inr st' \<Rightarrow> parse_lines (Suc line_num) rest st')"

text \<open>
  What \<^verbatim>\<open>open\<close> and \<^verbatim>\<open>readlines\<close> do: raise \<^verbatim>\<open>FileNotFoundError\<close>, raise another
  \<^verbatim>\<open>IOError\<close> with some text, raise a \<^verbatim>\<open>ValueError\<close> that is no \<^verbatim>\<open>IOError\<close> (the
  \<^verbatim>\<open>UnicodeDecodeError\<close> of a file that is not in the expected encoding, or the error for
  a path with an embedded null character), or return the lines of the file. The file
  system is outside the program, so the outcome is an argument of the model. The first
  two exceptions are caught and replaced; the third is not caught and leaves the
  function as it is.
\<close>

datatype file_outcome =
    File_missing
  | Read_failure string
  | Read_value_error string
  | File_lines "string list"

definition parse_input_file ::
  "string \<Rightarrow> file_outcome \<Rightarrow> parse_error + (stations \<times> report list)" where
  "parse_input_file file_path outcome =
     (case outcome of
        File_missing \<Rightarrow> Inl (Input_file_not_found file_path)
      | Read_failure e \<Rightarrow> Inl (Error_reading_input_file e)
      | Read_value_error e \<Rightarrow> Inl (Unwrapped_read_error e)
      | File_lines lines \<Rightarrow>
          (case parse_lines 1 lines initial_state of
             Inl e \<Rightarrow> Inl e
           | Inr st \<Rightarrow>
               if p_stations st = [] then Inl No_stations_defined
               else Inr (p_stations st, p_reports st)))"

section \<open>Specification-level notions of the file format\<close>

text \<open>
  The data lines of a file, each stripped and paired with the section in force where it
  stands: blank lines are dropped and a header line switches the section for the
  lines after it. \<open>sec\<close> is the section in force at the start.
\<close>

fun data_lines :: "file_section option \<Rightarrow> string list \<Rightarrow> (file_section option \<times> string) list" where
  "data_lines sec [] = []"
| "data_lines sec (raw # rest) =
     (if py_strip raw = [] then data_lines sec rest
      else if py_strip raw = ''[Stations]'' then data_lines (Some Stations_section) rest
      else if py_strip raw = ''[Charger Availability Reports]''
      then data_lines (Some Reports_section) rest
      else (sec, py_strip raw) # data_lines sec rest)"

fun section_after :: "file_section option \<Rightarrow> string list \<Rightarrow> file_section option" where
  "section_after sec [] = sec"
| "section_after sec (raw # rest) =
     (if py_strip raw = ''[Stations]'' then section_after (Some Stations_section) rest
      else if py_strip raw = ''[Charger Availability Reports]''
      then section_after (Some Reports_section) rest
      else section_after sec rest)"

text \<open>The integer a token stands for, if it stands for one.\<close>

definition int_value :: "string \<Rightarrow> int option" where
  "int_value s = (case py_int s of Inl err \<Rightarrow> None | Inr v \<Rightarrow> Some v)"

text \<open>The lines of the Stations section, the station identifier such a line declares
  (its first token) and the charger identifiers it declares (the tokens after the
  first), as far as the tokens read as integers.\<close>

definition station_lines_from :: "file_section option \<Rightarrow> string list \<Rightarrow> string list" where
  "station_lines_from sec ls =
     map snd (filter (\<lambda>p. fst p = Some Stations_section) (data_lines sec ls))"

definition line_station :: "string \<Rightarrow> int option" where
  "line_station line = (case py_split line of [] \<Rightarrow> None | t # ts \<Rightarrow> int_value t)"

definition line_chargers :: "string \<Rightarrow> int list" where
  "line_chargers line = List.map_filter int_value (tl (py_split line))"

definition stations_from :: "file_section option \<Rightarrow> string list \<Rightarrow> int list" where
  "stations_from sec ls = List.map_filter line_station (station_lines_from sec ls)"

definition chargers_from :: "file_section option \<Rightarrow> string list \<Rightarrow> int list" where
  "chargers_from sec ls = concat (map line_chargers (station_lines_from sec ls))"

definition station_lines :: "string list \<Rightarrow> string list" where
  "station_lines ls = station_lines_from None ls"

definition declared_stations :: "string list \<Rightarrow> int list" where
  "declared_stations ls = stations_from None ls"

definition declared_chargers :: "string list \<Rightarrow> int list" where
  "declared_chargers ls = chargers_from None ls"

text \<open>What holds of the parser's state after every line: the station identifiers are
  distinct, the keys of \<^verbatim>\<open>charger_to_station\<close> are the chargers of the stations in
  the order of declaration, each once and each in the 32-bit range, and every report
  names one of them and starts before it ends.\<close>

definition state_ok :: "parser_state \<Rightarrow> bool" where
  "state_ok st \<longleftrightarrow>
     distinct (map fst (p_stations st)) \<and>
     all_chargers (p_stations st) = map fst (p_charger_to_station st) \<and>
     distinct (map fst (p_charger_to_station st)) \<and>
     (\<forall>c \<in> fst ` set (p_charger_to_station st). 0 \<le> c \<and> c \<le> 4294967295) \<and>
     (\<forall>r \<in> set (p_reports st).
        fst r \<in> fst ` set (p_charger_to_station st) \<and> fst (snd r) < fst (snd (snd r)))"

text \<open>
  A report line that is well formed in everything but the reference to its charger:
  four tokens, three integers within their ranges, a start strictly before the end,
  and an up flag that is \<^verbatim>\<open>true\<close> or \<^verbatim>\<open>false\<close> in any case of letters. The result is the
  report the line stands for.
\<close>

definition report_fields :: "string \<Rightarrow> report option" where
  "report_fields raw =
     (case py_split (py_strip raw) of
        [t0, t1, t2, t3] \<Rightarrow>
          (case (int_value t0, int_value t1, int_value t2) of
             (Some c, Some s, Some e) \<Rightarrow>
               if 0 \<le> c \<and> c \<le> 4294967295 \<and> 0 \<le> s \<and> s \<le> 18446744073709551615 \<and>
                  0 \<le> e \<and> e \<le> 18446744073709551615 \<and> s < e \<and>
                  (py_lower t3 = ''true'' \<or> py_lower t3 = ''false'')
               then Some (c, s, e, py_lower t3 = ''true'') else None
           | _ \<Rightarrow> None)
      | _ \<Rightarrow> None)"

text \<open>
  A station line that is well formed in itself: every token is an integer in the 32-bit
  range. The result is the station identifier and the chargers the line declares.
\<close>

definition station_fields :: "string \<Rightarrow> (int \<times> int list) option" where
  "station_fields raw =
     (case py_split (py_strip raw) of
        [] \<Rightarrow> None
      | t # ts \<Rightarrow>
          (case int_value t of
             None \<Rightarrow> None
           | Some sid \<Rightarrow>
               if 0 \<le> sid \<and> sid \<le> 4294967295 \<and>
                  list_all (\<lambda>p. case int_value p of None \<Rightarrow> False
                                 | Some c \<Rightarrow> 0 \<le> c \<and> c \<le> 4294967295) ts
               then Some (sid, List.map_filter int_value ts) else None))"


section \<open>Properties of interval merging\<close>

lemma foldl_merge_step: "foldl merge_step (pre @ [cur]) xs = pre @ sweep cur xs"
proof (induction xs arbitrary: pre cur)
  case Nil
  show ?case by simp
next
  case (Cons x xs)
  obtain s e where x: "x = (s, e)" by (cases x)
  obtain a b where c: "cur = (a, b)" by (cases cur)
  show ?case
  proof (cases "s \<le> b")
    case True
    then show ?thesis using Cons.IH[of pre "(a, max b e)"] by (simp add: x c)
  next
    case False
    then show ?thesis using Cons.IH[of "pre @ [cur]" x] by (simp add: x c)
  qed
qed

lemma merge_intervals_sweep:
  "merge_intervals xs = (case sort xs of [] \<Rightarrow> [] | c # cs \<Rightarrow> sweep c cs)"
proof (cases "sort xs")
  case Nil
  then have "xs = []" by (metis length_sort length_0_conv)
  then show ?thesis by (simp add: merge_intervals_def)
next
  case (Cons c cs)
  then have ne: "xs \<noteq> []" by auto
  have "foldl merge_step ([] @ [c]) cs = [] @ sweep c cs" by (rule foldl_merge_step)
  then show ?thesis using Cons ne by (simp add: merge_intervals_def)
qed

lemma sweep_fst_ge:
  "sorted (map fst (cur # xs)) \<Longrightarrow> y \<in> set (sweep cur xs) \<Longrightarrow> fst cur \<le> fst y"
proof (induction xs arbitrary: cur)
  case Nil
  then show ?case by simp
next
  case (Cons x xs)
  show ?case
  proof (cases "fst x \<le> snd cur")
    case True
    have "sorted (map fst ((fst cur, max (snd cur) (snd x)) # xs))"
      using Cons.prems(1) by auto
    from Cons.IH[OF this] Cons.prems(2) True show ?thesis by simp
  next
    case False
    have "sorted (map fst (x # xs))" using Cons.prems(1) by simp
    from Cons.IH[OF this] Cons.prems False show ?thesis by auto
  qed
qed

lemma sweep_separated:
  "sorted (map fst (cur # xs)) \<Longrightarrow> sorted_wrt (\<lambda>p q. snd p < fst q) (sweep cur xs)"
proof (induction xs arbitrary: cur)
  case Nil
  then show ?case by simp
next
  case (Cons x xs)
  show ?case
  proof (cases "fst x \<le> snd cur")
    case True
    have "sorted (map fst ((fst cur, max (snd cur) (snd x)) # xs))"
      using Cons.prems(1) by auto
    from Cons.IH[OF this] True show ?thesis by simp
  next
    case False
    have s: "sorted (map fst (x # xs))" using Cons.prems(1) by simp
    have "\<forall>y \<in> set (sweep x xs). snd cur < fst y"
      using sweep_fst_ge[OF s] False by fastforce
    with Cons.IH[OF s] False show ?thesis by simp
  qed
qed


lemma sorted_map_fst: "sorted (xs :: interval list) \<Longrightarrow> sorted (map fst xs)"
  by (induction xs) (auto simp: less_eq_prod_def)

lemma sweep_ge:
  "sorted (cur # xs) \<Longrightarrow> y \<in> set (sweep cur xs) \<Longrightarrow> cur \<le> y"
proof (induction xs arbitrary: cur)
  case Nil
  then show ?case by simp
next
  case (Cons x xs)
  show ?case
  proof (cases "fst x \<le> snd cur")
    case True
    let ?c = "(fst cur, max (snd cur) (snd x))"
    have "\<forall>z \<in> set xs. ?c \<le> z"
    proof
      fix z assume z: "z \<in> set xs"
      have "cur \<le> z" "x \<le> z" "cur \<le> x" using Cons.prems(1) z by auto
      then show "?c \<le> z" by (auto simp: less_eq_prod_def)
    qed
    moreover have "sorted xs" using Cons.prems(1) by simp
    ultimately have "sorted (?c # xs)" by simp
    from Cons.IH[OF this] Cons.prems(2) True have "?c \<le> y" by simp
    moreover have "cur \<le> ?c" by (simp add: less_eq_prod_def)
    ultimately show ?thesis by (rule order_trans[rotated])
  next
    case False
    have s: "sorted (x # xs)" using Cons.prems(1) by simp
    have cx: "cur \<le> x" using Cons.prems(1) by simp
    from Cons.prems(2) False have "y = cur \<or> y \<in> set (sweep x xs)" by simp
    then show ?thesis
    proof
      assume "y = cur" then show ?thesis by simp
    next
      assume "y \<in> set (sweep x xs)"
      from Cons.IH[OF s this] cx show ?thesis by (rule order_trans[rotated])
    qed
  qed
qed

lemma sweep_sorted: "sorted (cur # xs) \<Longrightarrow> sorted (sweep cur xs)"
proof (induction xs arbitrary: cur)
  case Nil
  then show ?case by simp
next
  case (Cons x xs)
  show ?case
  proof (cases "fst x \<le> snd cur")
    case True
    let ?c = "(fst cur, max (snd cur) (snd x))"
    have "\<forall>z \<in> set xs. ?c \<le> z"
    proof
      fix z assume z: "z \<in> set xs"
      have "cur \<le> z" "x \<le> z" "cur \<le> x" using Cons.prems(1) z by auto
      then show "?c \<le> z" by (auto simp: less_eq_prod_def)
    qed
    moreover have "sorted xs" using Cons.prems(1) by simp
    ultimately have "sorted (?c # xs)" by simp
    from Cons.IH[OF this] True show ?thesis by simp
  next
    case False
    have s: "sorted (x # xs)" using Cons.prems(1) by simp
    have cx: "cur \<le> x" using Cons.prems(1) by simp
    have "\<forall>y \<in> set (sweep x xs). cur \<le> y"
      using sweep_ge[OF s] cx by (meson order_trans)
    with Cons.IH[OF s] False show ?thesis by simp
  qed
qed

lemma sweep_no_merge:
  "sorted_wrt (\<lambda>p q. snd p < fst q) (cur # xs) \<Longrightarrow> sweep cur xs = cur # xs"
  by (induction xs arbitrary: cur) auto

lemma covered_Cons: "covered (x # xs) = {fst x..<snd x} \<union> covered xs"
  by (auto simp: covered_def)

lemma covered_Nil: "covered [] = {}"
  by (simp add: covered_def)

lemma sweep_covered:
  "sorted (map fst (cur # xs)) \<Longrightarrow> covered (sweep cur xs) = covered (cur # xs)"
proof (induction xs arbitrary: cur)
  case Nil
  then show ?case by simp
next
  case (Cons x xs)
  show ?case
  proof (cases "fst x \<le> snd cur")
    case True
    let ?c = "(fst cur, max (snd cur) (snd x))"
    have "sorted (map fst (?c # xs))" using Cons.prems(1) by auto
    from Cons.IH[OF this] have "covered (sweep ?c xs) = covered (?c # xs)" .
    moreover have "{fst cur..<max (snd cur) (snd x)} = {fst cur..<snd cur} \<union> {fst x..<snd x}"
      using True Cons.prems(1) by auto
    ultimately show ?thesis using True by (simp add: covered_Cons Un_assoc)
  next
    case False
    have s: "sorted (map fst (x # xs))" using Cons.prems(1) by simp
    from Cons.IH[OF s] False show ?thesis by (simp add: covered_Cons)
  qed
qed

lemma sweep_wf:
  "\<forall>p \<in> set (cur # xs). fst p \<le> snd p \<Longrightarrow> \<forall>p \<in> set (sweep cur xs). fst p \<le> snd p"
proof (induction xs arbitrary: cur)
  case Nil
  then show ?case by simp
next
  case (Cons x xs)
  show ?case
  proof (cases "fst x \<le> snd cur")
    case True
    have "\<forall>p \<in> set ((fst cur, max (snd cur) (snd x)) # xs). fst p \<le> snd p"
      using Cons.prems by auto
    from Cons.IH[OF this] True show ?thesis by simp
  next
    case False
    have "\<forall>p \<in> set (x # xs). fst p \<le> snd p" using Cons.prems by simp
    from Cons.IH[OF this] False Cons.prems show ?thesis by simp
  qed
qed

lemma finite_covered: "finite (covered xs)"
  by (auto simp: covered_def)

lemma separated_total_time:
  "sorted_wrt (\<lambda>p q. snd p < fst q) xs \<Longrightarrow> \<forall>p \<in> set xs. fst p \<le> snd p
     \<Longrightarrow> calculate_total_time xs = int (card (covered xs))"
proof (induction xs)
  case Nil
  then show ?case by (simp add: calculate_total_time_def covered_Nil)
next
  case (Cons x xs)
  have ih: "calculate_total_time xs = int (card (covered xs))"
    using Cons by simp
  have disj: "{fst x..<snd x} \<inter> covered xs = {}"
  proof -
    have "\<forall>q \<in> set xs. snd x < fst q" using Cons.prems(1) by simp
    then show ?thesis by (fastforce simp: covered_def)
  qed
  have "card (covered (x # xs)) = card {fst x..<snd x} + card (covered xs)"
    unfolding covered_Cons
    by (rule card_Un_disjoint) (simp_all add: finite_covered disj)
  moreover have "calculate_total_time (x # xs) = (snd x - fst x) + calculate_total_time xs"
    by (simp add: calculate_total_time_def case_prod_beta)
  moreover have "int (card {fst x..<snd x}) = snd x - fst x"
    using Cons.prems(2) by simp
  ultimately show ?case using ih by simp
qed

lemma merge_intervals_mset:
  "mset xs = mset ys \<Longrightarrow> merge_intervals xs = merge_intervals ys"
proof -
  assume "mset xs = mset ys"
  then have "sort xs = sort ys"
    by (metis sorted_list_of_multiset_mset)
  then show ?thesis by (simp add: merge_intervals_sweep)
qed

lemma merge_intervals_eq_sweep:
  "xs \<noteq> [] \<Longrightarrow> \<exists>c cs. sort xs = c # cs \<and> merge_intervals xs = sweep c cs"
proof -
  assume "xs \<noteq> []"
  then have "sort xs \<noteq> []" by (metis length_sort length_0_conv)
  then obtain c cs where "sort xs = c # cs" by (cases "sort xs") auto
  then show ?thesis by (simp add: merge_intervals_sweep)
qed

lemma merge_intervals_sorted: "sorted (merge_intervals xs)"
proof (cases "xs = []")
  case True
  then show ?thesis by (simp add: merge_intervals_def)
next
  case False
  from merge_intervals_eq_sweep[OF False] obtain c cs
    where s: "sort xs = c # cs" and m: "merge_intervals xs = sweep c cs" by blast
  have "sorted (c # cs)" using sorted_sort[of xs] s by simp
  then show ?thesis unfolding m by (rule sweep_sorted)
qed

lemma merge_intervals_separated:
  "sorted_wrt (\<lambda>p q. snd p < fst q) (merge_intervals xs)"
proof (cases "xs = []")
  case True
  then show ?thesis by (simp add: merge_intervals_def)
next
  case False
  from merge_intervals_eq_sweep[OF False] obtain c cs
    where s: "sort xs = c # cs" and m: "merge_intervals xs = sweep c cs" by blast
  have "sorted (c # cs)" using sorted_sort[of xs] s by simp
  then have "sorted (map fst (c # cs))" by (rule sorted_map_fst)
  then show ?thesis unfolding m by (rule sweep_separated)
qed

lemma merge_intervals_covered: "covered (merge_intervals xs) = covered xs"
proof (cases "xs = []")
  case True
  then show ?thesis by (simp add: merge_intervals_def)
next
  case False
  from merge_intervals_eq_sweep[OF False] obtain c cs
    where s: "sort xs = c # cs" and m: "merge_intervals xs = sweep c cs" by blast
  have "sorted (c # cs)" using sorted_sort[of xs] s by simp
  then have "sorted (map fst (c # cs))" by (rule sorted_map_fst)
  then have "covered (sweep c cs) = covered (c # cs)" by (rule sweep_covered)
  moreover have "covered (sort xs) = covered xs" by (simp add: covered_def)
  ultimately show ?thesis by (simp add: m s)
qed

lemma merge_intervals_wf:
  "\<forall>p \<in> set xs. fst p \<le> snd p \<Longrightarrow> \<forall>p \<in> set (merge_intervals xs). fst p \<le> snd p"
proof (cases "xs = []")
  case True
  then show ?thesis by (simp add: merge_intervals_def)
next
  case False
  assume wf: "\<forall>p \<in> set xs. fst p \<le> snd p"
  from merge_intervals_eq_sweep[OF False] obtain c cs
    where s: "sort xs = c # cs" and m: "merge_intervals xs = sweep c cs" by blast
  have "set (c # cs) = set xs" using s by (metis set_sort)
  then have "\<forall>p \<in> set (c # cs). fst p \<le> snd p" using wf by simp
  then show ?thesis unfolding m by (rule sweep_wf)
qed

lemma merge_intervals_total_time:
  "\<forall>p \<in> set xs. fst p \<le> snd p \<Longrightarrow> calculate_total_time (merge_intervals xs) = union_length xs"
proof -
  assume wf: "\<forall>p \<in> set xs. fst p \<le> snd p"
  have "calculate_total_time (merge_intervals xs) = int (card (covered (merge_intervals xs)))"
    by (rule separated_total_time[OF merge_intervals_separated merge_intervals_wf[OF wf]])
  then show ?thesis by (simp add: merge_intervals_covered union_length_def)
qed

lemma merge_intervals_idem: "merge_intervals (merge_intervals xs) = merge_intervals xs"
proof (cases "merge_intervals xs")
  case Nil
  then show ?thesis by (simp add: merge_intervals_def)
next
  case (Cons c cs)
  have "sorted (c # cs)"
    using merge_intervals_sorted[of xs] Cons by simp
  then have "sort (c # cs) = c # cs" by (rule sorted_sort_id)
  moreover have "sorted_wrt (\<lambda>p q. snd p < fst q) (c # cs)"
    using merge_intervals_separated[of xs] Cons by simp
  then have "sweep c cs = c # cs" by (rule sweep_no_merge)
  ultimately show ?thesis using Cons by (simp add: merge_intervals_sweep)
qed

text \<open>
  Claim C2. An interval is a pair with \<open>start \<le> fin\<close>. For every list of intervals the
  result of \<^const>\<open>merge_intervals\<close> is sorted (lexicographically, so also by start), each
  interval ends strictly before every later one starts (so neither overlapping nor
  touching intervals remain), it covers exactly the time points the inputs cover, its
  total length is the length of the union of the inputs, and merging a second time
  changes nothing. All but the equation of the lengths hold of every list of pairs.
\<close>

theorem merge_intervals_spec:
  "sorted (merge_intervals ivs) \<and>
   sorted (map fst (merge_intervals ivs)) \<and>
   sorted_wrt (\<lambda>p q. snd p < fst q) (merge_intervals ivs) \<and>
   covered (merge_intervals ivs) = covered ivs \<and>
   merge_intervals (merge_intervals ivs) = merge_intervals ivs \<and>
   ((\<forall>p \<in> set ivs. fst p \<le> snd p) \<longrightarrow>
      calculate_total_time (merge_intervals ivs) = union_length ivs)"
  using merge_intervals_sorted[of ivs] sorted_map_fst[OF merge_intervals_sorted[of ivs]]
    merge_intervals_separated[of ivs] merge_intervals_covered[of ivs]
    merge_intervals_idem[of ivs] merge_intervals_total_time[of ivs]
  by blast

text \<open>The theorem at the touching and overlapping intervals
  \<open>(0,10), (10,20), (30,40), (35,38)\<close>: the first two merge into one, the last is
  absorbed, and the total length is 30.\<close>

theorem merge_intervals_spec_witness:
  "merge_intervals [(30, 40), (0, 10), (35, 38), (10, 20)] = [(0, 20), (30, 40)] \<and>
   merge_intervals (merge_intervals [(30, 40), (0, 10), (35, 38), (10, 20)])
     = merge_intervals [(30, 40), (0, 10), (35, 38), (10, 20)] \<and>
   calculate_total_time (merge_intervals [(30, 40), (0, 10), (35, 38), (10, 20)])
     = union_length [(30, 40), (0, 10), (35, 38), (10, 20)] \<and>
   union_length [(30, 40), (0, 10), (35, 38), (10, 20)] = 30"
proof -
  let ?ivs = "[(30, 40), (0, 10), (35, 38), (10, 20)] :: interval list"
  have wf: "\<forall>p \<in> set ?ivs. fst p \<le> snd p" by simp
  have m: "merge_intervals ?ivs = [(0, 20), (30, 40)]"
    by (simp add: merge_intervals_def less_eq_prod_def)
  have t: "calculate_total_time (merge_intervals ?ivs) = union_length ?ivs"
    using merge_intervals_spec[of ?ivs] wf by blast
  have i: "merge_intervals (merge_intervals ?ivs) = merge_intervals ?ivs"
    using merge_intervals_spec[of ?ivs] by blast
  have "calculate_total_time (merge_intervals ?ivs) = 30"
    by (simp add: m calculate_total_time_def)
  with t have "union_length ?ivs = 30" by simp
  with m i t show ?thesis by simp
qed

section \<open>Properties of the uptime calculation\<close>

lemma foldl_min_Min: "foldl min (a::int) xs = Min (insert a (set xs))"
proof (induction xs arbitrary: a)
  case Nil
  show ?case by simp
next
  case (Cons x xs)
  have "Min (insert a (insert x (set xs))) = Min (insert (min a x) (set xs))"
  proof (cases "set xs = {}")
    case True
    then show ?thesis by (simp add: min.commute)
  next
    case False
    then show ?thesis by (simp add: min.assoc)
  qed
  then show ?case using Cons.IH[of "min a x"] by simp
qed

lemma foldl_max_Max: "foldl max (a::int) xs = Max (insert a (set xs))"
proof (induction xs arbitrary: a)
  case Nil
  show ?case by simp
next
  case (Cons x xs)
  have "Max (insert a (insert x (set xs))) = Max (insert (max a x) (set xs))"
  proof (cases "set xs = {}")
    case True
    then show ?thesis by (simp add: max.commute)
  next
    case False
    then show ?thesis by (simp add: max.assoc)
  qed
  then show ?case using Cons.IH[of "max a x"] by simp
qed

lemma station_uptime_Nil: "station_uptime [] = 0"
  by (simp add: station_uptime_def)

lemma station_uptime_window:
  assumes "rs \<noteq> []"
  shows "station_uptime rs =
     (if window_end rs - window_start rs = 0 then 0
      else (calculate_total_time (merge_intervals (up_intervals rs)) * 100)
             div (window_end rs - window_start rs))"
proof -
  from assms obtain r rest where rs: "rs = r # rest" by (cases rs) auto
  have a: "foldl min (fst r) (map fst rest) = window_start rs"
    by (simp add: foldl_min_Min window_start_def rs)
  have b: "foldl max (fst (snd r)) (map (\<lambda>x. fst (snd x)) rest) = window_end rs"
    by (simp add: foldl_max_Max window_end_def rs)
  show ?thesis
    unfolding station_uptime_def rs list.case Let_def a[unfolded rs] b[unfolded rs]
      up_intervals_def[symmetric]
    by simp
qed

lemma station_uptime_mset:
  assumes "mset rs = mset rs'"
  shows "station_uptime rs = station_uptime rs'"
proof (cases "rs = []")
  case True
  with assms have "rs' = []" by auto
  with True show ?thesis by simp
next
  case False
  with assms have ne: "rs' \<noteq> []" by auto
  have s: "set rs = set rs'" using assms by (rule mset_eq_setD)
  have "mset (up_intervals rs) = mset (up_intervals rs')"
    unfolding up_intervals_def using assms by simp
  then have m: "merge_intervals (up_intervals rs) = merge_intervals (up_intervals rs')"
    by (rule merge_intervals_mset)
  have w: "window_start rs = window_start rs'" "window_end rs = window_end rs'"
    by (simp_all add: window_start_def window_end_def s)
  show ?thesis
    by (simp add: station_uptime_window[OF False] station_uptime_window[OF ne] m w)
qed


lemma map_of_update: "map_of (AList.update k v al) = (map_of al)(k \<mapsto> v)"
  by (rule update_conv')

lemma update_fresh: "k \<notin> fst ` set al \<Longrightarrow> AList.update k v al = al @ [(k, v)]"
  by (induction al) auto

lemma c2s_inner:
  "map_of (foldl (\<lambda>m c. AList.update c sid m) acc cs) c
     = (if c \<in> set cs then Some sid else map_of acc c)"
  by (induction cs arbitrary: acc) (auto simp: map_of_update)

lemma build_charger_to_station_alt:
  "build_charger_to_station sts = foldl c2s_step [] sts"
proof -
  have "(\<lambda>c2s (station_id, charger_ids).
           foldl (\<lambda>m charger_id. AList.update charger_id station_id m) c2s charger_ids) = c2s_step"
    by (auto simp: c2s_step_def fun_eq_iff)
  then show ?thesis by (simp add: build_charger_to_station_def)
qed

lemma c2s_step_map_of:
  "map_of (c2s_step acc x) c = (if c \<in> set (snd x) then Some (fst x) else map_of acc c)"
  by (simp add: c2s_step_def c2s_inner)

lemma c2s_owner:
  "map_of (foldl c2s_step [] sts) c = Some sid \<Longrightarrow> \<exists>cs. (sid, cs) \<in> set sts \<and> c \<in> set cs"
proof (induction sts rule: rev_induct)
  case Nil
  then show ?case by simp
next
  case (snoc x sts)
  show ?case
  proof (cases "c \<in> set (snd x)")
    case True
    with snoc.prems have "fst x = sid" by (simp add: c2s_step_map_of)
    with True have "(sid, snd x) \<in> set (sts @ [x]) \<and> c \<in> set (snd x)" by auto
    then show ?thesis by blast
  next
    case False
    with snoc.prems have "map_of (foldl c2s_step [] sts) c = Some sid"
      by (simp add: c2s_step_map_of)
    from snoc.IH[OF this] show ?thesis by auto
  qed
qed

lemma c2s_known:
  "c \<in> set (all_chargers sts) \<Longrightarrow> map_of (foldl c2s_step [] sts) c \<noteq> None"
proof (induction sts rule: rev_induct)
  case Nil
  then show ?case by (simp add: all_chargers_def)
next
  case (snoc x sts)
  then show ?case by (cases "c \<in> set (snd x)") (auto simp: c2s_step_map_of all_chargers_def)
qed

lemma c2s_unique:
  "distinct (all_chargers sts) \<Longrightarrow> (sid, cs) \<in> set sts \<Longrightarrow> c \<in> set cs
     \<Longrightarrow> map_of (foldl c2s_step [] sts) c = Some sid"
proof (induction sts rule: rev_induct)
  case Nil
  then show ?case by simp
next
  case (snoc x sts)
  have d: "distinct (all_chargers sts)" and dx: "set (all_chargers sts) \<inter> set (snd x) = {}"
    using snoc.prems(1) by (auto simp: all_chargers_def)
  show ?case
  proof (cases "c \<in> set (snd x)")
    case True
    have "(sid, cs) \<notin> set sts"
    proof
      assume "(sid, cs) \<in> set sts"
      with snoc.prems(3) have "c \<in> set (all_chargers sts)" by (force simp: all_chargers_def)
      with True dx show False by auto
    qed
    with snoc.prems(2) have "x = (sid, cs)" by auto
    with True show ?thesis by (simp add: c2s_step_map_of)
  next
    case False
    with snoc.prems(2,3) have "(sid, cs) \<in> set sts" by auto
    from snoc.IH[OF d this snoc.prems(3)] False show ?thesis by (simp add: c2s_step_map_of)
  qed
qed

lemma empty_station_reports_map_of_aux:
  "map_of (foldl (\<lambda>d (station_id, charger_ids). AList.update station_id [] d) acc sts) sid
     = (if sid \<in> fst ` set sts then Some [] else map_of acc sid)"
  by (induction sts arbitrary: acc) (auto simp: map_of_update)

lemma empty_station_reports_map_of:
  "map_of (empty_station_reports sts) sid = (if sid \<in> fst ` set sts then Some [] else None)"
  by (simp add: empty_station_reports_def empty_station_reports_map_of_aux)


lemma grouped_Nil: "grouped c2s sid [] = []"
  by (simp add: grouped_def)

lemma grouped_Cons:
  "grouped c2s sid ((c, s, e, u) # rest)
     = (if map_of c2s c = Some sid then (s, e, u) # grouped c2s sid rest else grouped c2s sid rest)"
  by (simp add: grouped_def)

lemma group_reports_ok:
  assumes "\<forall>c sid. map_of c2s c = Some sid \<longrightarrow> map_of sr sid \<noteq> None"
    and "\<forall>r \<in> set reports. map_of c2s (fst r) \<noteq> None"
  shows "\<exists>sr'. group_reports c2s sr reports = Inr sr' \<and>
           (\<forall>sid. map_of sr' sid = map_option (\<lambda>l. l @ grouped c2s sid reports) (map_of sr sid))"
  using assms
proof (induction reports arbitrary: sr)
  case Nil
  have "map_option (\<lambda>l. l) = (\<lambda>x::station_report list option. x)"
    by (simp add: fun_eq_iff option.map_ident)
  then show ?case by (simp add: grouped_Nil)
next
  case (Cons r rest)
  obtain c s e u where r: "r = (c, s, e, u)" by (cases r)
  from Cons.prems(2) obtain sid0 where m: "map_of c2s c = Some sid0" by (auto simp: r)
  with Cons.prems(1) obtain l where l: "map_of sr sid0 = Some l" by blast
  let ?sr1 = "AList.update sid0 (l @ [(s, e, u)]) sr"
  have rng: "\<forall>c sid. map_of c2s c = Some sid \<longrightarrow> map_of ?sr1 sid \<noteq> None"
    using Cons.prems(1) by (simp add: map_of_update)
  have kn: "\<forall>r \<in> set rest. map_of c2s (fst r) \<noteq> None" using Cons.prems(2) by simp
  from Cons.IH[OF rng kn] obtain sr' where
    g: "group_reports c2s ?sr1 rest = Inr sr'" and
    v: "\<forall>sid. map_of sr' sid = map_option (\<lambda>l. l @ grouped c2s sid rest) (map_of ?sr1 sid)"
    by blast
  have "group_reports c2s sr (r # rest) = Inr sr'"
    by (simp add: r m l g)
  moreover have "\<forall>sid. map_of sr' sid
        = map_option (\<lambda>l. l @ grouped c2s sid (r # rest)) (map_of sr sid)"
  proof
    fix sid
    show "map_of sr' sid = map_option (\<lambda>l. l @ grouped c2s sid (r # rest)) (map_of sr sid)"
    proof (cases "sid = sid0")
      case True
      then show ?thesis using v l m by (simp add: map_of_update r grouped_Cons)
    next
      case False
      then show ?thesis using v m by (simp add: map_of_update r grouped_Cons)
    qed
  qed
  ultimately show ?case by blast
qed

lemma group_reports_known:
  "group_reports c2s sr reports = Inr sr' \<Longrightarrow> r \<in> set reports \<Longrightarrow> map_of c2s (fst r) \<noteq> None"
proof (induction reports arbitrary: sr)
  case Nil
  then show ?case by simp
next
  case (Cons x rest)
  obtain c s e u where x: "x = (c, s, e, u)" by (cases x)
  from Cons.prems(1) obtain sid0 l where m: "map_of c2s c = Some sid0"
    and l: "map_of sr sid0 = Some l"
    and g: "group_reports c2s (AList.update sid0 (l @ [(s, e, u)]) sr) rest = Inr sr'"
    by (auto simp: x split: option.splits)
  show ?case
  proof (cases "r = x")
    case True
    then show ?thesis using m by (simp add: x)
  next
    case False
    with Cons.prems(2) have "r \<in> set rest" by simp
    from Cons.IH[OF g this] show ?thesis .
  qed
qed

lemma uptime_loop_returns:
  "\<forall>x \<in> set sts. map_of sr (fst x) \<noteq> None \<Longrightarrow> \<exists>ups'. uptime_loop sr ups sts = Inr ups'"
proof (induction sts arbitrary: ups)
  case Nil
  show ?case by simp
next
  case (Cons x sts)
  obtain sid cs where x: "x = (sid, cs)" by (cases x)
  from Cons.prems obtain l where l: "map_of sr sid = Some l" by (auto simp: x)
  have "\<forall>x \<in> set sts. map_of sr (fst x) \<noteq> None" using Cons.prems by simp
  from Cons.IH[OF this] show ?case by (simp add: x l)
qed

lemma uptime_loop_cong:
  assumes "\<forall>sid. rel_option (\<lambda>a b. station_uptime a = station_uptime b)
                   (map_of sr1 sid) (map_of sr2 sid)"
  shows "uptime_loop sr1 ups sts = uptime_loop sr2 ups sts"
proof (induction sts arbitrary: ups)
  case Nil
  show ?case by simp
next
  case (Cons x sts)
  obtain sid cs where x: "x = (sid, cs)" by (cases x)
  from assms have r: "rel_option (\<lambda>a b. station_uptime a = station_uptime b)
                   (map_of sr1 sid) (map_of sr2 sid)" by blast
  show ?case
  proof (cases "map_of sr1 sid")
    case None
    with r have "map_of sr2 sid = None" by (cases "map_of sr2 sid") auto
    with None show ?thesis by (simp add: x)
  next
    case (Some a)
    with r obtain b where b: "map_of sr2 sid = Some b" "station_uptime a = station_uptime b"
      by (cases "map_of sr2 sid") auto
    with Some Cons.IH show ?thesis by (simp add: x)
  qed
qed

lemma uptime_loop_distinct:
  assumes "\<forall>x \<in> set sts. map_of sr (fst x) \<noteq> None"
    and "distinct (map fst ups @ map fst sts)"
  shows "uptime_loop sr ups sts
           = Inr (ups @ map (\<lambda>x. (fst x, station_uptime (the (map_of sr (fst x))))) sts)"
  using assms
proof (induction sts arbitrary: ups)
  case Nil
  show ?case by simp
next
  case (Cons x sts)
  obtain sid cs where x: "x = (sid, cs)" by (cases x)
  from Cons.prems(1) obtain l where l: "map_of sr sid = Some l" by (auto simp: x)
  have fresh: "sid \<notin> fst ` set ups" using Cons.prems(2) by (auto simp: x)
  let ?ups1 = "ups @ [(sid, station_uptime l)]"
  have u: "AList.update sid (station_uptime l) ups = ?ups1"
    using fresh by (rule update_fresh)
  have a: "\<forall>x \<in> set sts. map_of sr (fst x) \<noteq> None" using Cons.prems(1) by simp
  have d: "distinct (map fst ?ups1 @ map fst sts)" using Cons.prems(2) by (auto simp: x)
  from Cons.IH[OF a d] show ?case by (simp add: x l u)
qed


lemma c2s_range:
  "map_of (build_charger_to_station sts) c = Some sid \<Longrightarrow> sid \<in> fst ` set sts"
proof -
  assume "map_of (build_charger_to_station sts) c = Some sid"
  then obtain cs where "(sid, cs) \<in> set sts"
    using c2s_owner[of sts c sid] by (auto simp: build_charger_to_station_alt)
  then show ?thesis by force
qed

lemma calc_group:
  assumes "\<forall>r \<in> set reports. fst r \<in> set (all_chargers sts)"
  shows "\<exists>sr. group_reports (build_charger_to_station sts) (empty_station_reports sts) reports
                = Inr sr \<and>
           (\<forall>sid. map_of sr sid =
              (if sid \<in> fst ` set sts
               then Some (grouped (build_charger_to_station sts) sid reports) else None))"
proof -
  let ?c2s = "build_charger_to_station sts"
  let ?sr0 = "empty_station_reports sts"
  have rng: "\<forall>c sid. map_of ?c2s c = Some sid \<longrightarrow> map_of ?sr0 sid \<noteq> None"
    using c2s_range by (simp add: empty_station_reports_map_of)
  have kn: "\<forall>r \<in> set reports. map_of ?c2s (fst r) \<noteq> None"
    using assms c2s_known by (simp add: build_charger_to_station_alt)
  from group_reports_ok[OF rng kn] obtain sr' where
    g: "group_reports ?c2s ?sr0 reports = Inr sr'" and
    v: "\<forall>sid. map_of sr' sid = map_option (\<lambda>l. l @ grouped ?c2s sid reports) (map_of ?sr0 sid)"
    by blast
  have "\<forall>sid. map_of sr' sid =
      (if sid \<in> fst ` set sts then Some (grouped ?c2s sid reports) else None)"
    using v by (simp add: empty_station_reports_map_of)
  with g show ?thesis by blast
qed

lemma calc_known:
  assumes "calculate_station_uptime sts reports = Inr ups" and "r \<in> set reports"
  shows "fst r \<in> set (all_chargers sts)"
proof -
  let ?c2s = "build_charger_to_station sts"
  from assms(1) obtain sr where
    "group_reports ?c2s (empty_station_reports sts) reports = Inr sr"
    by (auto simp: calculate_station_uptime_def Let_def split: sum.splits)
  from group_reports_known[OF this assms(2)] obtain sid where "map_of ?c2s (fst r) = Some sid"
    by auto
  then obtain cs where "(sid, cs) \<in> set sts" "fst r \<in> set cs"
    using c2s_owner[of sts "fst r" sid] by (auto simp: build_charger_to_station_alt)
  then show ?thesis by (force simp: all_chargers_def)
qed

lemma calc_returns:
  assumes "\<forall>r \<in> set reports. fst r \<in> set (all_chargers sts)"
  shows "\<exists>ups. calculate_station_uptime sts reports = Inr ups"
proof -
  from calc_group[OF assms] obtain sr where
    g: "group_reports (build_charger_to_station sts) (empty_station_reports sts) reports = Inr sr"
    and v: "\<forall>sid. map_of sr sid =
              (if sid \<in> fst ` set sts
               then Some (grouped (build_charger_to_station sts) sid reports) else None)"
    by blast
  have "\<forall>x \<in> set sts. map_of sr (fst x) \<noteq> None" using v by simp
  from uptime_loop_returns[OF this, of "[]"] g show ?thesis
    by (simp add: calculate_station_uptime_def)
qed

lemma calc_char:
  assumes "\<forall>r \<in> set reports. fst r \<in> set (all_chargers sts)"
    and "distinct (map fst sts)"
  shows "calculate_station_uptime sts reports
           = Inr (map (\<lambda>x. (fst x, station_uptime
                    (grouped (build_charger_to_station sts) (fst x) reports))) sts)"
proof -
  from calc_group[OF assms(1)] obtain sr where
    g: "group_reports (build_charger_to_station sts) (empty_station_reports sts) reports = Inr sr"
    and v: "\<forall>sid. map_of sr sid =
              (if sid \<in> fst ` set sts
               then Some (grouped (build_charger_to_station sts) sid reports) else None)"
    by blast
  have a: "\<forall>x \<in> set sts. map_of sr (fst x) \<noteq> None" using v by simp
  have d: "distinct (map fst ([]::(int \<times> int) list) @ map fst sts)" using assms(2) by simp
  have "map (\<lambda>x. (fst x, station_uptime (the (map_of sr (fst x))))) sts
      = map (\<lambda>x. (fst x, station_uptime
                    (grouped (build_charger_to_station sts) (fst x) reports))) sts"
    using v by simp
  with uptime_loop_distinct[OF a d] g show ?thesis
    by (simp add: calculate_station_uptime_def)
qed

lemma station_chargers_mem:
  "distinct (map fst sts) \<Longrightarrow> (sid, cs) \<in> set sts \<Longrightarrow> station_chargers sts sid = cs"
  by (simp add: station_chargers_def)

lemma station_chargers_in:
  "c \<in> set (station_chargers sts sid) \<Longrightarrow> (sid, station_chargers sts sid) \<in> set sts"
  by (auto simp: station_chargers_def split: option.splits dest: map_of_SomeD)

lemma grouped_imp_owned:
  assumes "distinct (map fst sts)"
    and "map_of (build_charger_to_station sts) c = Some sid"
  shows "c \<in> set (station_chargers sts sid)"
proof -
  from assms(2) obtain cs where "(sid, cs) \<in> set sts" "c \<in> set cs"
    using c2s_owner[of sts c sid] by (auto simp: build_charger_to_station_alt)
  with station_chargers_mem[OF assms(1)] show ?thesis by auto
qed

lemma owned_imp_grouped:
  assumes "distinct (all_chargers sts)" and "c \<in> set (station_chargers sts sid)"
  shows "map_of (build_charger_to_station sts) c = Some sid"
  using c2s_unique[OF assms(1) station_chargers_in[OF assms(2)] assms(2)]
  by (simp add: build_charger_to_station_alt)

lemma grouped_reports_of:
  assumes "distinct (map fst sts)" and "distinct (all_chargers sts)"
  shows "grouped (build_charger_to_station sts) sid reports = reports_of sts reports sid"
proof -
  have "\<And>c. (map_of (build_charger_to_station sts) c = Some sid)
            = (c \<in> set (station_chargers sts sid))"
    using grouped_imp_owned[OF assms(1)] owned_imp_grouped[OF assms(2)] by blast
  then show ?thesis by (simp add: grouped_def reports_of_def)
qed

lemma grouped_empty:
  assumes "distinct (map fst sts)" and "reports_of sts reports sid = []"
  shows "grouped (build_charger_to_station sts) sid reports = []"
proof -
  have "\<forall>r \<in> set reports. fst r \<notin> set (station_chargers sts sid)"
    using assms(2) by (simp add: reports_of_def filter_empty_conv)
  then have "\<forall>r \<in> set reports. map_of (build_charger_to_station sts) (fst r) \<noteq> Some sid"
    using grouped_imp_owned[OF assms(1)] by blast
  then show ?thesis by (simp add: grouped_def filter_empty_conv)
qed

lemma grouped_mset:
  "mset reports = mset reports' \<Longrightarrow> mset (grouped c2s sid reports) = mset (grouped c2s sid reports')"
  by (simp add: grouped_def)

lemma calc_perm:
  assumes "mset reports = mset reports'"
    and "calculate_station_uptime sts reports = Inr ups"
  shows "calculate_station_uptime sts reports' = Inr ups"
proof -
  let ?c2s = "build_charger_to_station sts"
  have k: "\<forall>r \<in> set reports. fst r \<in> set (all_chargers sts)"
    using calc_known[OF assms(2)] by blast
  have "set reports = set reports'" using assms(1) by (rule mset_eq_setD)
  with k have k': "\<forall>r \<in> set reports'. fst r \<in> set (all_chargers sts)" by simp
  from calc_group[OF k] obtain sr where
    g: "group_reports ?c2s (empty_station_reports sts) reports = Inr sr"
    and v: "\<forall>sid. map_of sr sid =
              (if sid \<in> fst ` set sts then Some (grouped ?c2s sid reports) else None)"
    by blast
  from calc_group[OF k'] obtain sr' where
    g': "group_reports ?c2s (empty_station_reports sts) reports' = Inr sr'"
    and v': "\<forall>sid. map_of sr' sid =
              (if sid \<in> fst ` set sts then Some (grouped ?c2s sid reports') else None)"
    by blast
  have "\<forall>sid. rel_option (\<lambda>a b. station_uptime a = station_uptime b)
                   (map_of sr sid) (map_of sr' sid)"
    using v v' station_uptime_mset[OF grouped_mset[OF assms(1)]] by simp
  from uptime_loop_cong[OF this] have "uptime_loop sr [] sts = uptime_loop sr' [] sts" .
  with assms(2) g g' show ?thesis by (simp add: calculate_station_uptime_def)
qed

lemma map_of_map_keyed:
  "sid \<in> fst ` set sts \<Longrightarrow> map_of (map (\<lambda>x. (fst x, f (fst x))) sts) sid = Some (f sid)"
  by (induction sts) auto

lemma covered_up_intervals:
  "covered (up_intervals rs) \<subseteq> (\<Union>r \<in> set rs. {fst r..<fst (snd r)})"
  by (auto simp: covered_def up_intervals_def)

lemma window_bounds:
  assumes "r \<in> set rs"
  shows "window_start rs \<le> fst r" and "fst (snd r) \<le> window_end rs"
  using assms by (simp_all add: window_start_def window_end_def)

lemma covered_in_window:
  "covered (up_intervals rs) \<subseteq> {window_start rs..<window_end rs}"
proof
  fix t assume "t \<in> covered (up_intervals rs)"
  with covered_up_intervals[of rs] have "t \<in> (\<Union>r \<in> set rs. {fst r..<fst (snd r)})" by blast
  then obtain r where r: "r \<in> set rs" "fst r \<le> t" "t < fst (snd r)"
    by auto
  with window_bounds[OF r(1)] show "t \<in> {window_start rs..<window_end rs}" by simp
qed

lemma union_length_le_window:
  assumes "rs \<noteq> []" and "\<forall>r \<in> set rs. fst r \<le> fst (snd r)"
  shows "union_length (up_intervals rs) \<le> window_end rs - window_start rs"
proof -
  have "card (covered (up_intervals rs)) \<le> card {window_start rs..<window_end rs}"
    by (rule card_mono) (simp_all add: covered_in_window)
  moreover obtain r where r: "r \<in> set rs" using assms(1) by (cases rs) auto
  from assms(2) r have "fst r \<le> fst (snd r)" by blast
  with window_bounds[OF r] have "window_start rs \<le> window_end rs" by linarith
  ultimately show ?thesis by (simp add: union_length_def)
qed

lemma window_positive:
  assumes "rs \<noteq> []" and "\<forall>r \<in> set rs. fst r < fst (snd r)"
  shows "0 < window_end rs - window_start rs"
proof -
  obtain r where r: "r \<in> set rs" using assms(1) by (cases rs) auto
  from assms(2) r have "fst r < fst (snd r)" by blast
  with window_bounds[OF r] show ?thesis by linarith
qed

lemma up_time_union_length:
  assumes "\<forall>r \<in> set rs. fst r \<le> fst (snd r)"
  shows "calculate_total_time (merge_intervals (up_intervals rs)) = union_length (up_intervals rs)"
proof -
  have "\<forall>p \<in> set (up_intervals rs). fst p \<le> snd p"
    using assms by (auto simp: up_intervals_def)
  then show ?thesis by (rule merge_intervals_total_time)
qed

lemma reports_of_subset:
  "r \<in> set (reports_of sts reports sid) \<Longrightarrow> \<exists>c. (c, r) \<in> set reports"
  by (auto simp: reports_of_def)

lemma floor_div_bounds:
  fixes a w :: int
  assumes "0 < w"
  shows "(a div w) * w \<le> a \<and> a < (a div w + 1) * w"
proof -
  have e: "w * (a div w) + a mod w = a" by (rule mult_div_mod_eq)
  have m: "0 \<le> a mod w" "a mod w < w" using assms by simp_all
  from e m have "w * (a div w) \<le> a" by linarith
  moreover from e m have "a < w * (a div w) + w" by linarith
  ultimately show ?thesis by (simp add: algebra_simps)
qed

lemma percent_range:
  fixes u w :: int
  assumes "0 \<le> u" and "u \<le> w" and "0 < w"
  shows "0 \<le> (u * 100) div w \<and> (u * 100) div w \<le> 100"
proof -
  have "0 \<le> u * 100" using assms(1) by simp
  then have a: "0 \<le> (u * 100) div w" using assms(3) by (simp add: pos_imp_zdiv_nonneg_iff)
  have "u * 100 \<le> 100 * w" using assms(2) by simp
  then have "(u * 100) div w \<le> (100 * w) div w" using assms(3) by (rule zdiv_mono1)
  moreover have "(100 * w) div w = 100" using assms(3) by simp
  ultimately have "(u * 100) div w \<le> 100" by simp
  with a show ?thesis by simp
qed

lemma station_uptime_range:
  assumes "\<forall>r \<in> set rs. fst r < fst (snd r)"
  shows "0 \<le> station_uptime rs \<and> station_uptime rs \<le> 100"
proof (cases "rs = []")
  case True
  then show ?thesis by (simp add: station_uptime_Nil)
next
  case False
  define W where "W = window_end rs - window_start rs"
  define U where "U = calculate_total_time (merge_intervals (up_intervals rs))"
  have le: "\<forall>r \<in> set rs. fst r \<le> fst (snd r)" using assms order_less_imp_le by blast
  have W: "0 < W" unfolding W_def by (rule window_positive[OF False assms])
  have U: "U = union_length (up_intervals rs)"
    unfolding U_def by (rule up_time_union_length[OF le])
  have U0: "0 \<le> U" unfolding U by (simp add: union_length_def)
  have UW: "U \<le> W" unfolding U W_def by (rule union_length_le_window[OF False le])
  have v: "station_uptime rs = (U * 100) div W"
    using W unfolding U_def W_def by (simp add: station_uptime_window[OF False])
  show ?thesis unfolding v by (rule percent_range[OF U0 UW W])
qed

lemma merge_loop_nonempty: "foldl merge_step [c] cs \<noteq> []"
proof -
  have "foldl merge_step ([] @ [c]) cs = [] @ sweep c cs" by (rule foldl_merge_step)
  moreover have "sweep c cs \<noteq> []" by (induction cs arbitrary: c) auto
  ultimately show ?thesis by simp
qed

section \<open>The claims about the calculator\<close>

text \<open>
  Claim C1. Let the station identifiers be distinct, every charger be listed once, and
  every report name a listed charger. For a declared station with at least one report
  and a window of non-zero length, \<^const>\<open>calculate_station_uptime\<close> returns, for that
  station, the floor of \<open>upTime * 100 / totalDuration\<close>, where \<open>totalDuration\<close> is the
  latest end minus the earliest start over all the station's reports, up and down
  alike, and \<open>upTime\<close> is the total length of the merged up intervals. When the
  reports have \<open>start \<le> fin\<close>, \<open>upTime\<close> is the number of time points covered by
  some up report, so every point of the window that no up report covers, a gap
  included, counts as downtime.
\<close>

theorem uptime_formula:
  assumes "distinct (map fst sts)" and "distinct (all_chargers sts)"
    and "\<forall>r \<in> set reports. fst r \<in> set (all_chargers sts)"
    and "sid \<in> fst ` set sts"
    and "reports_of sts reports sid \<noteq> []"
    and "window_end (reports_of sts reports sid) \<noteq> window_start (reports_of sts reports sid)"
  shows "\<exists>ups. calculate_station_uptime sts reports = Inr ups \<and>
           map_of ups sid =
             Some ((calculate_total_time (merge_intervals (up_intervals (reports_of sts reports sid)))
                      * 100)
                   div (window_end (reports_of sts reports sid)
                          - window_start (reports_of sts reports sid))) \<and>
           ((\<forall>r \<in> set (reports_of sts reports sid). fst r \<le> fst (snd r)) \<longrightarrow>
              calculate_total_time (merge_intervals (up_intervals (reports_of sts reports sid)))
                = union_length (up_intervals (reports_of sts reports sid)))"
proof -
  let ?rs = "reports_of sts reports sid"
  let ?f = "\<lambda>s. station_uptime (grouped (build_charger_to_station sts) s reports)"
  have c: "calculate_station_uptime sts reports = Inr (map (\<lambda>x. (fst x, ?f (fst x))) sts)"
    by (rule calc_char[OF assms(3) assms(1)])
  have "map_of (map (\<lambda>x. (fst x, ?f (fst x))) sts) sid = Some (?f sid)"
    by (rule map_of_map_keyed[OF assms(4)])
  moreover have "?f sid = station_uptime ?rs"
    by (simp add: grouped_reports_of[OF assms(1) assms(2)])
  moreover have "station_uptime ?rs =
      (calculate_total_time (merge_intervals (up_intervals ?rs)) * 100)
        div (window_end ?rs - window_start ?rs)"
    using assms(6) by (simp add: station_uptime_window[OF assms(5)])
  ultimately have "map_of (map (\<lambda>x. (fst x, ?f (fst x))) sts) sid =
      Some ((calculate_total_time (merge_intervals (up_intervals ?rs)) * 100)
        div (window_end ?rs - window_start ?rs))" by simp
  with c up_time_union_length[of ?rs] show ?thesis by blast
qed

text \<open>The theorem at the gap scenario: station \<open>0\<close> is up on \<open>[0,50)\<close> and
  \<open>[100,200)\<close>, a down report spans \<open>[40,60)\<close>, the window is \<open>200\<close> long and the uptime
  is \<open>75\<close>.\<close>

theorem uptime_formula_witness:
  "distinct (map fst ([(0, [1001, 1002]), (1, [1003])] :: stations)) \<and>
   distinct (all_chargers [(0, [1001, 1002]), (1, [1003])]) \<and>
   reports_of [(0, [1001, 1002]), (1, [1003])]
     [(1001, 0, 50, True), (1003, 0, 7, True), (1002, 40, 60, False), (1001, 100, 200, True)] 0
     = [(0, 50, True), (40, 60, False), (100, 200, True)] \<and>
   calculate_station_uptime [(0, [1001, 1002]), (1, [1003])]
     [(1001, 0, 50, True), (1003, 0, 7, True), (1002, 40, 60, False), (1001, 100, 200, True)]
     = Inr [(0, 75), (1, 100)] \<and>
   union_length (up_intervals [(0, 50, True), (40, 60, False), (100, 200, True)]) = 150"
proof -
  let ?sts = "[(0, [1001, 1002]), (1, [1003])] :: stations"
  let ?reports = "[(1001, 0, 50, True), (1003, 0, 7, True), (1002, 40, 60, False),
                   (1001, 100, 200, True)] :: report list"
  let ?rs = "[(0, 50, True), (40, 60, False), (100, 200, True)] :: station_report list"
  have h1: "distinct (map fst ?sts)" by simp
  have h2: "distinct (all_chargers ?sts)" by (simp add: all_chargers_def)
  have h3: "\<forall>r \<in> set ?reports. fst r \<in> set (all_chargers ?sts)"
    by (simp add: all_chargers_def)
  have h4: "0 \<in> fst ` set ?sts" by simp
  have rs: "reports_of ?sts ?reports 0 = ?rs"
    by (simp add: reports_of_def station_chargers_def)
  have h5: "reports_of ?sts ?reports 0 \<noteq> []" by (simp add: rs)
  have w: "window_end ?rs = 200" "window_start ?rs = 0"
    by (simp_all add: window_end_def window_start_def)
  have h6: "window_end (reports_of ?sts ?reports 0) \<noteq> window_start (reports_of ?sts ?reports 0)"
    by (simp add: rs w)
  have wf: "\<forall>r \<in> set (reports_of ?sts ?reports 0). fst r \<le> fst (snd r)" by (simp add: rs)
  have u: "calculate_total_time (merge_intervals (up_intervals ?rs)) = 150"
    by (simp add: up_intervals_def merge_intervals_def calculate_total_time_def less_eq_prod_def)
  have c: "calculate_station_uptime ?sts ?reports = Inr [(0, 75), (1, 100)]"
    by (simp add: calculate_station_uptime_def build_charger_to_station_def
        empty_station_reports_def station_uptime_def merge_intervals_def
        calculate_total_time_def less_eq_prod_def)
  from uptime_formula[OF h1 h2 h3 h4 h5 h6] wf
  have "calculate_total_time (merge_intervals (up_intervals (reports_of ?sts ?reports 0)))
      = union_length (up_intervals (reports_of ?sts ?reports 0))" by blast
  then have "union_length (up_intervals ?rs) = 150" by (simp add: rs u)
  with h1 h2 rs c show ?thesis by simp
qed


text \<open>
  Claim C3. For stations and reports that satisfy the parser's invariants,
  \<^const>\<open>calculate_station_uptime\<close> returns, and every value \<open>v\<close> of the result lies in
  \<open>[0, 100]\<close>. It is \<open>0\<close> for a station without reports, and for a station with
  reports it is the floor of the exact quotient: \<open>v * window \<le> upTime * 100\<close> and
  \<open>upTime * 100 < (v + 1) * window\<close>, so the remainder is discarded and the value is
  never rounded up.
\<close>

theorem uptime_range:
  assumes "parser_invariants sts reports"
  shows "\<exists>ups. calculate_station_uptime sts reports = Inr ups \<and>
           (\<forall>(sid, v) \<in> set ups.
              0 \<le> v \<and> v \<le> 100 \<and>
              (reports_of sts reports sid = [] \<longrightarrow> v = 0) \<and>
              (reports_of sts reports sid \<noteq> [] \<longrightarrow>
                 0 < window_end (reports_of sts reports sid)
                       - window_start (reports_of sts reports sid) \<and>
                 v * (window_end (reports_of sts reports sid)
                        - window_start (reports_of sts reports sid))
                   \<le> union_length (up_intervals (reports_of sts reports sid)) * 100 \<and>
                 union_length (up_intervals (reports_of sts reports sid)) * 100
                   < (v + 1) * (window_end (reports_of sts reports sid)
                                  - window_start (reports_of sts reports sid))))"
proof -
  from assms have d: "distinct (map fst sts)" and dc: "distinct (all_chargers sts)"
    and kn: "\<forall>r \<in> set reports. fst r \<in> set (all_chargers sts)"
    and lt: "\<forall>r \<in> set reports. fst (snd r) < fst (snd (snd r))"
    by (simp_all add: parser_invariants_def)
  let ?f = "\<lambda>s. station_uptime (reports_of sts reports s)"
  have c: "calculate_station_uptime sts reports = Inr (map (\<lambda>x. (fst x, ?f (fst x))) sts)"
    using calc_char[OF kn d] by (simp add: grouped_reports_of[OF d dc])
  have each: "0 \<le> ?f sid \<and> ?f sid \<le> 100 \<and>
       (reports_of sts reports sid = [] \<longrightarrow> ?f sid = 0) \<and>
       (reports_of sts reports sid \<noteq> [] \<longrightarrow>
          0 < window_end (reports_of sts reports sid) - window_start (reports_of sts reports sid) \<and>
          ?f sid * (window_end (reports_of sts reports sid)
                      - window_start (reports_of sts reports sid))
            \<le> union_length (up_intervals (reports_of sts reports sid)) * 100 \<and>
          union_length (up_intervals (reports_of sts reports sid)) * 100
            < (?f sid + 1) * (window_end (reports_of sts reports sid)
                                - window_start (reports_of sts reports sid)))" for sid
  proof -
    let ?rs = "reports_of sts reports sid"
    have wf: "\<forall>r \<in> set ?rs. fst r < fst (snd r)"
    proof
      fix r assume "r \<in> set ?rs"
      then obtain c where "(c, r) \<in> set reports" using reports_of_subset by blast
      with lt show "fst r < fst (snd r)" by fastforce
    qed
    have le: "\<forall>r \<in> set ?rs. fst r \<le> fst (snd r)" using wf order_less_imp_le by blast
    have rg: "0 \<le> ?f sid \<and> ?f sid \<le> 100" by (rule station_uptime_range[OF wf])
    have z: "?rs = [] \<longrightarrow> ?f sid = 0" by (simp add: station_uptime_Nil)
    have nz: "?rs \<noteq> [] \<longrightarrow>
          0 < window_end ?rs - window_start ?rs \<and>
          ?f sid * (window_end ?rs - window_start ?rs) \<le> union_length (up_intervals ?rs) * 100 \<and>
          union_length (up_intervals ?rs) * 100 < (?f sid + 1) * (window_end ?rs - window_start ?rs)"
    proof
      assume ne: "?rs \<noteq> []"
      have W: "0 < window_end ?rs - window_start ?rs" by (rule window_positive[OF ne wf])
      have v: "?f sid = (union_length (up_intervals ?rs) * 100) div (window_end ?rs - window_start ?rs)"
        using W by (simp add: station_uptime_window[OF ne] up_time_union_length[OF le])
      show "0 < window_end ?rs - window_start ?rs \<and>
          ?f sid * (window_end ?rs - window_start ?rs) \<le> union_length (up_intervals ?rs) * 100 \<and>
          union_length (up_intervals ?rs) * 100 < (?f sid + 1) * (window_end ?rs - window_start ?rs)"
        unfolding v using W floor_div_bounds[OF W, of "union_length (up_intervals ?rs) * 100"]
        by blast
    qed
    from rg z nz show ?thesis by blast
  qed
  have "\<forall>(sid, v) \<in> set (map (\<lambda>x. (fst x, ?f (fst x))) sts).
              0 \<le> v \<and> v \<le> 100 \<and>
              (reports_of sts reports sid = [] \<longrightarrow> v = 0) \<and>
              (reports_of sts reports sid \<noteq> [] \<longrightarrow>
                 0 < window_end (reports_of sts reports sid)
                       - window_start (reports_of sts reports sid) \<and>
                 v * (window_end (reports_of sts reports sid)
                        - window_start (reports_of sts reports sid))
                   \<le> union_length (up_intervals (reports_of sts reports sid)) * 100 \<and>
                 union_length (up_intervals (reports_of sts reports sid)) * 100
                   < (v + 1) * (window_end (reports_of sts reports sid)
                                  - window_start (reports_of sts reports sid)))"
  proof
    fix p assume "p \<in> set (map (\<lambda>x. (fst x, ?f (fst x))) sts)"
    then obtain x where p: "p = (fst x, ?f (fst x))" by auto
    show "case p of (sid, v) \<Rightarrow>
              0 \<le> v \<and> v \<le> 100 \<and>
              (reports_of sts reports sid = [] \<longrightarrow> v = 0) \<and>
              (reports_of sts reports sid \<noteq> [] \<longrightarrow>
                 0 < window_end (reports_of sts reports sid)
                       - window_start (reports_of sts reports sid) \<and>
                 v * (window_end (reports_of sts reports sid)
                        - window_start (reports_of sts reports sid))
                   \<le> union_length (up_intervals (reports_of sts reports sid)) * 100 \<and>
                 union_length (up_intervals (reports_of sts reports sid)) * 100
                   < (v + 1) * (window_end (reports_of sts reports sid)
                                  - window_start (reports_of sts reports sid)))"
      unfolding p prod.case by (rule each)
  qed
  with c show ?thesis by blast
qed

text \<open>The theorem at the flooring scenario: \<open>20\<close> of \<open>30\<close> time units are up and the
  result is \<open>66\<close>, not \<open>67\<close>.\<close>

theorem uptime_range_witness:
  "parser_invariants [(0, [1001]), (1, [1002])]
     [(1001, 0, 10, True), (1001, 10, 20, False), (1001, 20, 30, True)] \<and>
   calculate_station_uptime [(0, [1001]), (1, [1002])]
     [(1001, 0, 10, True), (1001, 10, 20, False), (1001, 20, 30, True)]
     = Inr [(0, 66), (1, 0)] \<and>
   66 * (window_end (reports_of [(0, [1001]), (1, [1002])]
           [(1001, 0, 10, True), (1001, 10, 20, False), (1001, 20, 30, True)] 0)
         - window_start (reports_of [(0, [1001]), (1, [1002])]
           [(1001, 0, 10, True), (1001, 10, 20, False), (1001, 20, 30, True)] 0))
     \<le> union_length (up_intervals (reports_of [(0, [1001]), (1, [1002])]
           [(1001, 0, 10, True), (1001, 10, 20, False), (1001, 20, 30, True)] 0)) * 100"
proof -
  let ?sts = "[(0, [1001]), (1, [1002])] :: stations"
  let ?reports = "[(1001, 0, 10, True), (1001, 10, 20, False), (1001, 20, 30, True)]
                    :: report list"
  have h: "parser_invariants ?sts ?reports"
    by (simp add: parser_invariants_def all_chargers_def)
  have c: "calculate_station_uptime ?sts ?reports = Inr [(0, 66), (1, 0)]"
    by (simp add: calculate_station_uptime_def build_charger_to_station_def
        empty_station_reports_def station_uptime_def merge_intervals_def
        calculate_total_time_def less_eq_prod_def)
  have ne: "reports_of ?sts ?reports 0 \<noteq> []"
    by (simp add: reports_of_def station_chargers_def)
  from uptime_range[OF h] c ne
  have "66 * (window_end (reports_of ?sts ?reports 0) - window_start (reports_of ?sts ?reports 0))
     \<le> union_length (up_intervals (reports_of ?sts ?reports 0)) * 100"
    by auto
  with h c show ?thesis by blast
qed

text \<open>
  Claim C4. When \<^const>\<open>calculate_station_uptime\<close> returns, the keys of the result are
  the keys of the stations dictionary, each once and in the same order, and every
  station none of whose chargers has a report is mapped to \<open>0\<close>.
\<close>

theorem uptime_keys:
  assumes "calculate_station_uptime sts reports = Inr ups" and "distinct (map fst sts)"
  shows "map fst ups = map fst sts \<and>
         (\<forall>sid \<in> fst ` set sts. reports_of sts reports sid = [] \<longrightarrow> map_of ups sid = Some 0)"
proof -
  let ?f = "\<lambda>s. station_uptime (grouped (build_charger_to_station sts) s reports)"
  have kn: "\<forall>r \<in> set reports. fst r \<in> set (all_chargers sts)"
    using calc_known[OF assms(1)] by blast
  from calc_char[OF kn assms(2)] assms(1)
  have ups: "ups = map (\<lambda>x. (fst x, ?f (fst x))) sts" by simp
  have k: "map fst ups = map fst sts" by (simp add: ups comp_def)
  have "\<forall>sid \<in> fst ` set sts. reports_of sts reports sid = [] \<longrightarrow> map_of ups sid = Some 0"
  proof (intro ballI impI)
    fix sid assume s: "sid \<in> fst ` set sts" and e: "reports_of sts reports sid = []"
    have "map_of ups sid = Some (?f sid)" unfolding ups by (rule map_of_map_keyed[OF s])
    then show "map_of ups sid = Some 0"
      by (simp add: grouped_empty[OF assms(2) e] station_uptime_Nil)
  qed
  with k show ?thesis by blast
qed

text \<open>The theorem at three stations of which only the first has a report.\<close>

theorem uptime_keys_witness:
  "calculate_station_uptime [(0, [1001]), (1, [1002]), (2, [])] [(1001, 0, 100, True)]
     = Inr [(0, 100), (1, 0), (2, 0)] \<and>
   distinct (map fst ([(0, [1001]), (1, [1002]), (2, [])] :: stations)) \<and>
   reports_of [(0, [1001]), (1, [1002]), (2, [])] [(1001, 0, 100, True)] 1 = [] \<and>
   map fst [(0, 100), (1, 0), (2, 0 :: int)] = map fst ([(0, [1001]), (1, [1002]), (2, [])] :: stations) \<and>
   map_of [(0, 100), (1, 0), (2, 0 :: int)] (1 :: int) = Some 0"
proof -
  let ?sts = "[(0, [1001]), (1, [1002]), (2, [])] :: stations"
  let ?reports = "[(1001, 0, 100, True)] :: report list"
  have c: "calculate_station_uptime ?sts ?reports = Inr [(0, 100), (1, 0), (2, 0)]"
    by (simp add: calculate_station_uptime_def build_charger_to_station_def
        empty_station_reports_def station_uptime_def merge_intervals_def
        calculate_total_time_def less_eq_prod_def)
  have d: "distinct (map fst ?sts)" by simp
  have e: "reports_of ?sts ?reports 1 = []"
    by (simp add: reports_of_def station_chargers_def)
  have m: "1 \<in> fst ` set ?sts" by simp
  from uptime_keys[OF c d] m e
  have "map fst [(0, 100), (1, 0), (2, 0 :: int)] = map fst ?sts \<and>
        map_of [(0, 100), (1, 0), (2, 0 :: int)] (1 :: int) = Some 0"
    by blast
  with c d e show ?thesis by blast
qed

text \<open>
  Claim C8. If every report's charger is in some station's charger list, then
  \<^const>\<open>calculate_station_uptime\<close> returns a result: no lookup fails. In particular the
  lookup of every report's charger in \<^verbatim>\<open>charger_to_station\<close> yields a declared station.
  The other partial operations of the source are guarded in the code itself: the
  minimum and maximum are taken after the test for an empty list, the division after the
  test for a zero window, and \<^verbatim>\<open>merged[-1]\<close> is read from a list that is never empty
  (lemma \<open>merge_loop_nonempty\<close>).
\<close>

theorem uptime_total:
  assumes "\<forall>r \<in> set reports. fst r \<in> set (all_chargers sts)"
  shows "(\<exists>ups. calculate_station_uptime sts reports = Inr ups) \<and>
         (\<forall>r \<in> set reports. \<exists>sid \<in> fst ` set sts.
             map_of (build_charger_to_station sts) (fst r) = Some sid)"
proof -
  have "\<forall>r \<in> set reports. \<exists>sid \<in> fst ` set sts.
          map_of (build_charger_to_station sts) (fst r) = Some sid"
  proof
    fix r assume "r \<in> set reports"
    with assms have "fst r \<in> set (all_chargers sts)" by blast
    then obtain sid where s: "map_of (build_charger_to_station sts) (fst r) = Some sid"
      using c2s_known[of "fst r" sts] by (auto simp: build_charger_to_station_alt)
    from c2s_range[OF s] s
    show "\<exists>sid \<in> fst ` set sts. map_of (build_charger_to_station sts) (fst r) = Some sid"
      by blast
  qed
  with calc_returns[OF assms] show ?thesis by blast
qed

text \<open>The theorem at the scenario of the specification.\<close>

theorem uptime_total_witness:
  "calculate_station_uptime [(0, [1001, 1002]), (1, [1003])]
     [(1001, 0, 100, True), (1002, 50, 150, False), (1003, 0, 200, True)]
     = Inr [(0, 66), (1, 100)] \<and>
   (\<exists>ups. calculate_station_uptime [(0, [1001, 1002]), (1, [1003])]
     [(1001, 0, 100, True), (1002, 50, 150, False), (1003, 0, 200, True)] = Inr ups)"
proof -
  let ?sts = "[(0, [1001, 1002]), (1, [1003])] :: stations"
  let ?reports = "[(1001, 0, 100, True), (1002, 50, 150, False), (1003, 0, 200, True)]
                    :: report list"
  have h: "\<forall>r \<in> set ?reports. fst r \<in> set (all_chargers ?sts)"
    by (simp add: all_chargers_def)
  have c: "calculate_station_uptime ?sts ?reports = Inr [(0, 66), (1, 100)]"
    by (simp add: calculate_station_uptime_def build_charger_to_station_def
        empty_station_reports_def station_uptime_def merge_intervals_def
        calculate_total_time_def less_eq_prod_def)
  from uptime_total[OF h] have "\<exists>ups. calculate_station_uptime ?sts ?reports = Inr ups"
    by blast
  with c show ?thesis by blast
qed

text \<open>
  Claim C9. If two report lists are permutations of each other and
  \<^const>\<open>calculate_station_uptime\<close> returns a result on the first, it returns the same
  result on the second.
\<close>

theorem uptime_permutation:
  assumes "mset reports = mset reports'"
    and "calculate_station_uptime sts reports = Inr ups"
  shows "calculate_station_uptime sts reports' = Inr ups"
  using assms by (rule calc_perm)

text \<open>The theorem at a list of three reports and a rotation of it.\<close>

theorem uptime_permutation_witness:
  "mset [(1001, 0, 10, True), (1002, 5, 20, False), (1001, 20, 30, True)]
     = mset [(1001, 20, 30, True), (1001, 0, 10, True), (1002 :: int, 5 :: int, 20 :: int, False)] \<and>
   calculate_station_uptime [(0, [1001]), (1, [1002])]
     [(1001, 0, 10, True), (1002, 5, 20, False), (1001, 20, 30, True)]
     = Inr [(0, 66), (1, 0)] \<and>
   calculate_station_uptime [(0, [1001]), (1, [1002])]
     [(1001, 20, 30, True), (1001, 0, 10, True), (1002, 5, 20, False)]
     = Inr [(0, 66), (1, 0)]"
proof -
  let ?sts = "[(0, [1001]), (1, [1002])] :: stations"
  let ?a = "[(1001, 0, 10, True), (1002, 5, 20, False), (1001, 20, 30, True)] :: report list"
  let ?b = "[(1001, 20, 30, True), (1001, 0, 10, True), (1002, 5, 20, False)] :: report list"
  have m: "mset ?a = mset ?b" by (simp add: add.commute)
  have c: "calculate_station_uptime ?sts ?a = Inr [(0, 66), (1, 0)]"
    by (simp add: calculate_station_uptime_def build_charger_to_station_def
        empty_station_reports_def station_uptime_def merge_intervals_def
        calculate_total_time_def less_eq_prod_def)
  from uptime_permutation[OF m c] m c show ?thesis by blast
qed

section \<open>Properties of the parser\<close>

lemma map_of_None_fresh: "map_of al k = None \<Longrightarrow> k \<notin> fst ` set al"
  by (simp add: map_of_eq_None_iff)

lemma int_value_Inr: "py_int s = Inr v \<Longrightarrow> int_value s = Some v"
  by (simp add: int_value_def)

lemma int_value_SomeD: "int_value s = Some v \<Longrightarrow> py_int s = Inr v"
  by (cases "py_int s") (auto simp: int_value_def)

lemma map_filter_append:
  "List.map_filter f (xs @ ys) = List.map_filter f xs @ List.map_filter f ys"
  by (simp add: List.map_filter_def)

lemma map_filter_Cons_Some:
  "f x = Some y \<Longrightarrow> List.map_filter f (x # xs) = y # List.map_filter f xs"
  by (simp add: List.map_filter_def)

lemma map_filter_Cons_None:
  "f x = None \<Longrightarrow> List.map_filter f (x # xs) = List.map_filter f xs"
  by (simp add: List.map_filter_def)

lemma parse_chargers_ok:
  assumes "parse_chargers n sid parts c2s ids = Inr (c2s', ids')"
  shows "c2s' = c2s @ map (\<lambda>c. (c, sid)) (List.map_filter int_value parts) \<and>
         ids' = ids @ List.map_filter int_value parts \<and>
         (\<forall>c \<in> set (List.map_filter int_value parts).
            0 \<le> c \<and> c \<le> 4294967295 \<and> c \<notin> fst ` set c2s) \<and>
         distinct (List.map_filter int_value parts)"
  using assms
proof (induction parts arbitrary: c2s ids)
  case Nil
  then show ?case by (simp add: List.map_filter_def)
next
  case (Cons p parts)
  from Cons.prems obtain c where c: "py_int p = Inr c"
    by (cases "py_int p") auto
  from Cons.prems c have rng: "0 \<le> c" "c \<le> 4294967295"
    by (auto split: if_splits)
  from Cons.prems c rng have fresh: "map_of c2s c = None"
    by (auto split: if_splits)
  then have nf: "c \<notin> fst ` set c2s" by (rule map_of_None_fresh)
  have u: "AList.update c sid c2s = c2s @ [(c, sid)]" using nf by (rule update_fresh)
  from Cons.prems c rng fresh
  have rec: "parse_chargers n sid parts (c2s @ [(c, sid)]) (ids @ [c]) = Inr (c2s', ids')"
    by (simp add: u)
  note ih = Cons.IH[OF rec]
  have mf: "List.map_filter int_value (p # parts) = c # List.map_filter int_value parts"
    using map_filter_Cons_Some[of int_value p c parts] int_value_Inr[OF c] by simp
  have "c \<notin> set (List.map_filter int_value parts)"
    using ih by auto
  with ih rng nf show ?case unfolding mf by auto
qed

lemma parse_chargers_error:
  "parse_chargers n sid parts c2s ids = Inl e \<Longrightarrow>
     error_line e = Some n \<or>
     (\<exists>t \<in> set parts. \<exists>d. py_int t = Inl (Exceeds_digit_limit d) \<and> e = Digit_limit_exceeded d)"
proof (induction parts arbitrary: c2s ids)
  case Nil
  then show ?case by simp
next
  case (Cons p parts)
  show ?case
  proof (cases "py_int p")
    case (Inl err)
    with Cons.prems have e: "e = int_failure n err" by simp
    show ?thesis
    proof (cases err)
      case Invalid_literal
      with e show ?thesis by simp
    next
      case (Exceeds_digit_limit d)
      with e Inl show ?thesis by auto
    qed
  next
    case (Inr c)
    show ?thesis
    proof (cases "c < 0 \<or> c > 4294967295")
      case True
      with Cons.prems Inr show ?thesis by auto
    next
      case r: False
      show ?thesis
      proof (cases "map_of c2s c \<noteq> None")
        case True
        with Cons.prems Inr r show ?thesis by auto
      next
        case False
        with Cons.prems Inr r
        have "parse_chargers n sid parts (AList.update c sid c2s) (ids @ [c]) = Inl e"
          by simp
        from Cons.IH[OF this] show ?thesis by auto
      qed
    qed
  qed
qed

lemma parse_chargers_duplicate:
  assumes "parse_chargers n sid before c2s ids = Inr (c2s', ids')"
    and "py_int tok = Inr c" and "0 \<le> c" and "c \<le> 4294967295"
    and "c \<in> fst ` set c2s'"
  shows "parse_chargers n sid (before @ tok # rest) c2s ids = Inl (Duplicate_charger_id c n)"
  using assms(1)
proof (induction before arbitrary: c2s ids)
  case Nil
  then have "c2s' = c2s" by simp
  with assms(5) have "map_of c2s c \<noteq> None" by (simp add: map_of_eq_None_iff)
  with assms(2,3,4) show ?case by auto
next
  case (Cons p before)
  from Cons.prems obtain d where d: "py_int p = Inr d"
    by (cases "py_int p") auto
  from Cons.prems d have rng: "0 \<le> d" "d \<le> 4294967295"
    by (auto split: if_splits)
  from Cons.prems d rng have fresh: "map_of c2s d = None"
    by (auto split: if_splits)
  from Cons.prems d rng fresh
  have rec: "parse_chargers n sid before (AList.update d sid c2s) (ids @ [d]) = Inr (c2s', ids')"
    by simp
  from Cons.IH[OF rec] d rng fresh show ?case by simp
qed

lemma parse_chargers_succeeds:
  assumes "list_all (\<lambda>p. case int_value p of None \<Rightarrow> False
                          | Some c \<Rightarrow> 0 \<le> c \<and> c \<le> 4294967295) parts"
    and "distinct (map fst c2s @ List.map_filter int_value parts)"
  shows "parse_chargers n sid parts c2s ids
           = Inr (c2s @ map (\<lambda>c. (c, sid)) (List.map_filter int_value parts),
                  ids @ List.map_filter int_value parts)"
  using assms
proof (induction parts arbitrary: c2s ids)
  case Nil
  show ?case by (simp add: List.map_filter_def)
next
  case (Cons p parts)
  from Cons.prems(1) obtain c where iv: "int_value p = Some c"
    and rng: "0 \<le> c" "c \<le> 4294967295"
    by (cases "int_value p") auto
  note c = int_value_SomeD[OF iv]
  have mf: "List.map_filter int_value (p # parts) = c # List.map_filter int_value parts"
    using map_filter_Cons_Some[of int_value p c parts] iv by simp
  from Cons.prems(2) have nf: "c \<notin> fst ` set c2s"
    and d': "distinct (map fst (c2s @ [(c, sid)]) @ List.map_filter int_value parts)"
    unfolding mf by auto
  have fresh: "map_of c2s c = None" using nf by (simp add: map_of_eq_None_iff)
  have u: "AList.update c sid c2s = c2s @ [(c, sid)]" using nf by (rule update_fresh)
  have la: "list_all (\<lambda>p. case int_value p of None \<Rightarrow> False
                          | Some c \<Rightarrow> 0 \<le> c \<and> c \<le> 4294967295) parts"
    using Cons.prems(1) by simp
  from Cons.IH[OF la d', of "ids @ [c]"] c rng fresh show ?case
    unfolding mf by (simp add: u)
qed

lemma parse_station_line_ok:
  assumes "parse_station_line n line st = Inr st'"
  shows "\<exists>sid. sid \<notin> fst ` set (p_stations st) \<and> line_station line = Some sid \<and>
           0 \<le> sid \<and> sid \<le> 4294967295 \<and>
           p_stations st' = p_stations st @ [(sid, line_chargers line)] \<and>
           p_charger_to_station st'
             = p_charger_to_station st @ map (\<lambda>c. (c, sid)) (line_chargers line) \<and>
           (\<forall>c \<in> set (line_chargers line).
              0 \<le> c \<and> c \<le> 4294967295 \<and> c \<notin> fst ` set (p_charger_to_station st)) \<and>
           distinct (line_chargers line) \<and>
           current_section st' = current_section st \<and>
           p_reports st' = p_reports st"
proof -
  from assms obtain part0 parts where sp: "py_split line = part0 # parts"
    by (cases "py_split line") (auto simp: parse_station_line_def)
  from assms sp obtain sid where sid: "py_int part0 = Inr sid"
    by (cases "py_int part0") (auto simp: parse_station_line_def)
  from assms sp sid have rng: "\<not> (sid < 0 \<or> sid > 4294967295)"
    by (auto simp: parse_station_line_def split: if_splits)
  from assms sp sid rng obtain c2s ids where
    pc: "parse_chargers n sid parts (p_charger_to_station st) [] = Inr (c2s, ids)"
    by (cases "parse_chargers n sid parts (p_charger_to_station st) []")
       (auto simp: parse_station_line_def)
  from assms sp sid rng pc have nd: "map_of (p_stations st) sid = None"
    by (auto simp: parse_station_line_def split: if_splits)
  then have fresh: "sid \<notin> fst ` set (p_stations st)" by (rule map_of_None_fresh)
  from assms sp sid rng pc nd
  have st': "st' = st\<lparr>p_stations := AList.update sid ids (p_stations st),
                       p_charger_to_station := c2s\<rparr>"
    by (simp add: parse_station_line_def)
  have lc: "line_chargers line = List.map_filter int_value parts"
    by (simp add: line_chargers_def sp)
  have ls: "line_station line = Some sid"
    by (simp add: line_station_def sp int_value_Inr[OF sid])
  note ok = parse_chargers_ok[OF pc]
  have "p_stations st' = p_stations st @ [(sid, line_chargers line)]"
    using ok by (simp add: st' update_fresh[OF fresh] lc)
  moreover have "p_charger_to_station st'
             = p_charger_to_station st @ map (\<lambda>c. (c, sid)) (line_chargers line)"
    using ok by (simp add: st' lc)
  moreover have "\<forall>c \<in> set (line_chargers line).
              0 \<le> c \<and> c \<le> 4294967295 \<and> c \<notin> fst ` set (p_charger_to_station st)"
    using ok unfolding lc by blast
  moreover have "distinct (line_chargers line)" using ok unfolding lc by blast
  moreover have "current_section st' = current_section st" "p_reports st' = p_reports st"
    by (simp_all add: st')
  moreover have "0 \<le> sid \<and> sid \<le> 4294967295" using rng by simp
  ultimately show ?thesis using fresh ls by blast
qed

lemma parse_station_line_error:
  assumes "parse_station_line n line st = Inl e"
  shows "error_line e = Some n \<or>
     (\<exists>t \<in> set (py_split line). \<exists>d. py_int t = Inl (Exceeds_digit_limit d) \<and>
        e = Digit_limit_exceeded d)"
proof (cases "py_split line")
  case Nil
  with assms show ?thesis by (auto simp: parse_station_line_def)
next
  case (Cons part0 parts)
  show ?thesis
  proof (cases "py_int part0")
    case (Inl err)
    with assms Cons have e: "e = int_failure n err" by (simp add: parse_station_line_def)
    show ?thesis
    proof (cases err)
      case Invalid_literal
      with e show ?thesis by simp
    next
      case (Exceeds_digit_limit d)
      with e Inl Cons show ?thesis by auto
    qed
  next
    case (Inr sid)
    show ?thesis
    proof (cases "sid < 0 \<or> sid > 4294967295")
      case True
      with assms Cons Inr show ?thesis by (auto simp: parse_station_line_def)
    next
      case r: False
      show ?thesis
      proof (cases "parse_chargers n sid parts (p_charger_to_station st) []")
        case (Inl e')
        with assms Cons Inr r have "e' = e" by (simp add: parse_station_line_def)
        with parse_chargers_error[OF Inl] Cons show ?thesis by auto
      next
        case pc: (Inr res)
        obtain c2s ids where res: "res = (c2s, ids)" by (cases res)
        from assms Cons Inr r pc res show ?thesis
          by (auto simp: parse_station_line_def split: if_splits)
      qed
    qed
  qed
qed

lemma parse_report_line_ok:
  assumes "parse_report_line n line st = Inr st'"
  shows "\<exists>c s e u. st' = st\<lparr>p_reports := p_reports st @ [(c, s, e, u)]\<rparr> \<and>
           c \<in> fst ` set (p_charger_to_station st) \<and> s < e"
proof -
  from assms obtain c s e where
    "st' = st\<lparr>p_reports := p_reports st @
        [(c, s, e, py_lower (py_split line ! 3) = ''true'')]\<rparr>"
    and "map_of (p_charger_to_station st) c \<noteq> None" and "s < e"
    by (auto simp: parse_report_line_def Let_def split: sum.splits if_splits)
  moreover from this have "c \<in> fst ` set (p_charger_to_station st)"
    by (simp add: map_of_eq_None_iff)
  ultimately show ?thesis by blast
qed

lemma int_failure_line:
  "py_int t = Inl err \<Longrightarrow>
     error_line (int_failure n err) = Some n \<or>
     (\<exists>d. py_int t = Inl (Exceeds_digit_limit d) \<and> int_failure n err = Digit_limit_exceeded d)"
  by (cases err) auto

lemma parse_report_line_error:
  assumes "parse_report_line n line st = Inl e"
  shows "error_line e = Some n \<or>
     (\<exists>t \<in> set (py_split line). \<exists>d. py_int t = Inl (Exceeds_digit_limit d) \<and>
        e = Digit_limit_exceeded d)"
proof (cases "length (py_split line) = 4")
  case False
  with assms show ?thesis by (auto simp: parse_report_line_def)
next
  case len: True
  then have mem: "py_split line ! 0 \<in> set (py_split line)"
    "py_split line ! 1 \<in> set (py_split line)" "py_split line ! 2 \<in> set (py_split line)"
    by simp_all
  show ?thesis
  proof (cases "py_int (py_split line ! 0)")
    case (Inl err)
    with assms len have "e = int_failure n err" by (simp add: parse_report_line_def)
    with int_failure_line[OF Inl, of n] mem(1) show ?thesis by auto
  next
    case c: (Inr c)
    show ?thesis
    proof (cases "py_int (py_split line ! 1)")
      case (Inl err)
      with assms len c have "e = int_failure n err" by (simp add: parse_report_line_def)
      with int_failure_line[OF Inl, of n] mem(2) show ?thesis by auto
    next
      case s: (Inr s)
      show ?thesis
      proof (cases "py_int (py_split line ! 2)")
        case (Inl err)
        with assms len c s have "e = int_failure n err" by (simp add: parse_report_line_def)
        with int_failure_line[OF Inl, of n] mem(3) show ?thesis by auto
      next
        case e: (Inr en)
        from assms len c s e have "error_line e = Some n"
          by (auto simp: parse_report_line_def Let_def split: if_splits)
        then show ?thesis by simp
      qed
    qed
  qed
qed

lemma parse_line_error:
  assumes "parse_line n raw st = Inl e"
  shows "error_line e = Some n \<or>
     (\<exists>t \<in> set (py_split (py_strip raw)). \<exists>d. py_int t = Inl (Exceeds_digit_limit d) \<and>
        e = Digit_limit_exceeded d)"
proof (cases "current_section st")
  case None
  with assms show ?thesis by (auto simp: parse_line_def Let_def split: if_splits)
next
  case (Some sec)
  show ?thesis
  proof (cases sec)
    case Stations_section
    with assms Some have "parse_station_line n (py_strip raw) st = Inl e"
      by (auto simp: parse_line_def Let_def split: if_splits)
    then show ?thesis by (rule parse_station_line_error)
  next
    case Reports_section
    with assms Some have "parse_report_line n (py_strip raw) st = Inl e"
      by (auto simp: parse_line_def Let_def split: if_splits)
    then show ?thesis by (rule parse_report_line_error)
  qed
qed

lemma all_chargers_snoc: "all_chargers (sts @ [(sid, ids)]) = all_chargers sts @ ids"
  by (simp add: all_chargers_def)

lemma map_fst_tagged: "map fst (map (\<lambda>c. (c, sid)) cs) = cs"
  by (induction cs) auto

lemma state_ok_station:
  assumes "state_ok st" and "parse_station_line n line st = Inr st'"
  shows "state_ok st'"
proof -
  from parse_station_line_ok[OF assms(2)] obtain sid where
    f: "sid \<notin> fst ` set (p_stations st)" and
    s: "p_stations st' = p_stations st @ [(sid, line_chargers line)]" and
    k0: "p_charger_to_station st'
          = p_charger_to_station st @ map (\<lambda>c. (c, sid)) (line_chargers line)" and
    r: "\<forall>c \<in> set (line_chargers line).
          0 \<le> c \<and> c \<le> 4294967295 \<and> c \<notin> fst ` set (p_charger_to_station st)" and
    d: "distinct (line_chargers line)" and
    p: "p_reports st' = p_reports st"
    by blast
  have k: "map fst (p_charger_to_station st')
          = map fst (p_charger_to_station st) @ line_chargers line"
    by (simp add: k0 comp_def)
  from assms(1) have a1: "distinct (map fst (p_stations st))"
    and a2: "all_chargers (p_stations st) = map fst (p_charger_to_station st)"
    and a3: "distinct (map fst (p_charger_to_station st))"
    and a4: "\<forall>c \<in> fst ` set (p_charger_to_station st). 0 \<le> c \<and> c \<le> 4294967295"
    and a5: "\<forall>r \<in> set (p_reports st).
        fst r \<in> fst ` set (p_charger_to_station st) \<and> fst (snd r) < fst (snd (snd r))"
    by (simp_all add: state_ok_def)
  have ks: "fst ` set (p_charger_to_station st')
      = fst ` set (p_charger_to_station st) \<union> set (line_chargers line)"
  proof -
    have "set (map fst (p_charger_to_station st'))
        = set (map fst (p_charger_to_station st) @ line_chargers line)"
      by (simp only: k)
    then show ?thesis by simp
  qed
  have b1: "distinct (map fst (p_stations st'))" using a1 f by (simp add: s)
  have b2: "all_chargers (p_stations st') = map fst (p_charger_to_station st')"
    by (simp add: s all_chargers_snoc a2 k)
  have b3: "distinct (map fst (p_charger_to_station st'))"
    unfolding k using a3 d r by auto
  have b4: "\<forall>c \<in> fst ` set (p_charger_to_station st'). 0 \<le> c \<and> c \<le> 4294967295"
    unfolding ks using a4 r by blast
  have b5: "\<forall>r \<in> set (p_reports st').
        fst r \<in> fst ` set (p_charger_to_station st') \<and> fst (snd r) < fst (snd (snd r))"
    unfolding ks p using a5 by blast
  from b1 b2 b3 b4 b5 show ?thesis unfolding state_ok_def by blast
qed

lemma state_ok_report:
  assumes "state_ok st" and "parse_report_line n line st = Inr st'"
  shows "state_ok st'"
proof -
  from parse_report_line_ok[OF assms(2)] obtain c s e u where
    st': "st' = st\<lparr>p_reports := p_reports st @ [(c, s, e, u)]\<rparr>" and
    c: "c \<in> fst ` set (p_charger_to_station st)" and lt: "s < e"
    by blast
  from assms(1) c lt show ?thesis by (simp add: state_ok_def st')
qed

lemma state_ok_initial: "state_ok initial_state"
  by (simp add: state_ok_def initial_state_def all_chargers_def)

lemma state_ok_section: "state_ok (st\<lparr>current_section := sec\<rparr>) = state_ok st"
  by (simp add: state_ok_def)

lemma data_lines_single:
  "data_lines sec (raw # rest) = data_lines sec [raw] @ data_lines (section_after sec [raw]) rest"
  by simp

lemma section_after_single:
  "section_after sec (raw # rest) = section_after (section_after sec [raw]) rest"
  by simp

lemma station_lines_from_Cons:
  "station_lines_from sec (raw # rest)
     = station_lines_from sec [raw] @ station_lines_from (section_after sec [raw]) rest"
  unfolding station_lines_from_def by (subst data_lines_single) simp

lemma chargers_from_Cons:
  "chargers_from sec (raw # rest)
     = chargers_from sec [raw] @ chargers_from (section_after sec [raw]) rest"
  unfolding chargers_from_def by (subst station_lines_from_Cons) simp

lemma stations_from_Cons:
  "stations_from sec (raw # rest)
     = stations_from sec [raw] @ stations_from (section_after sec [raw]) rest"
  unfolding stations_from_def by (subst station_lines_from_Cons) (simp add: map_filter_append)

lemma parse_line_ok:
  assumes "parse_line n raw st = Inr st'" and "state_ok st"
  shows "state_ok st' \<and>
         map fst (p_charger_to_station st')
           = map fst (p_charger_to_station st) @ chargers_from (current_section st) [raw] \<and>
         map fst (p_stations st')
           = map fst (p_stations st) @ stations_from (current_section st) [raw] \<and>
         current_section st' = section_after (current_section st) [raw] \<and>
         length (p_stations st')
           = length (p_stations st) + length (station_lines_from (current_section st) [raw])"
proof -
  let ?line = "py_strip raw"
  consider (blank) "?line = []"
    | (h1) "?line \<noteq> []" "?line = ''[Stations]''"
    | (h2) "?line \<noteq> []" "?line \<noteq> ''[Stations]''" "?line = ''[Charger Availability Reports]''"
    | (data) "?line \<noteq> []" "?line \<noteq> ''[Stations]''" "?line \<noteq> ''[Charger Availability Reports]''"
    by blast
  then show ?thesis
  proof cases
    case blank
    with assms show ?thesis
      by (simp add: parse_line_def chargers_from_def stations_from_def station_lines_from_def
          List.map_filter_def)
  next
    case h1
    with assms show ?thesis
      by (auto simp: parse_line_def chargers_from_def stations_from_def station_lines_from_def
          state_ok_section List.map_filter_def)
  next
    case h2
    with assms show ?thesis
      by (auto simp: parse_line_def chargers_from_def stations_from_def station_lines_from_def
          state_ok_section List.map_filter_def)
  next
    case data
    show ?thesis
    proof (cases "current_section st")
      case None
      with assms data show ?thesis by (simp add: parse_line_def)
    next
      case (Some sec)
      show ?thesis
      proof (cases sec)
        case Stations_section
        with assms(1) data Some have ps: "parse_station_line n ?line st = Inr st'"
          by (simp add: parse_line_def)
        from parse_station_line_ok[OF ps] obtain sid where
          ls: "line_station ?line = Some sid" and
          s: "p_stations st' = p_stations st @ [(sid, line_chargers ?line)]" and
          k0: "p_charger_to_station st'
                = p_charger_to_station st @ map (\<lambda>c. (c, sid)) (line_chargers ?line)" and
          cs: "current_section st' = current_section st"
          by blast
        have sl: "station_lines_from (current_section st) [raw] = [?line]"
          using data Some Stations_section by (simp add: station_lines_from_def)
        have "map fst (p_charger_to_station st')
           = map fst (p_charger_to_station st) @ chargers_from (current_section st) [raw]"
          by (simp add: k0 comp_def chargers_from_def sl)
        moreover have "map fst (p_stations st')
           = map fst (p_stations st) @ stations_from (current_section st) [raw]"
          using map_filter_Cons_Some[of line_station ?line sid "[]"] ls
          by (simp add: s stations_from_def sl List.map_filter_def)
        moreover have "current_section st' = section_after (current_section st) [raw]"
          using data cs by simp
        moreover have "length (p_stations st')
           = length (p_stations st) + length (station_lines_from (current_section st) [raw])"
          by (simp add: s sl)
        ultimately show ?thesis using state_ok_station[OF assms(2) ps] by blast
      next
        case Reports_section
        with assms(1) data Some have pr: "parse_report_line n ?line st = Inr st'"
          by (simp add: parse_line_def)
        from parse_report_line_ok[OF pr] state_ok_report[OF assms(2) pr] data Some
          Reports_section
        show ?thesis
          by (auto simp: chargers_from_def stations_from_def station_lines_from_def
              List.map_filter_def)
      qed
    qed
  qed
qed

lemma parse_lines_ok:
  assumes "parse_lines n ls st = Inr st'" and "state_ok st"
  shows "state_ok st' \<and>
         map fst (p_charger_to_station st')
           = map fst (p_charger_to_station st) @ chargers_from (current_section st) ls \<and>
         map fst (p_stations st')
           = map fst (p_stations st) @ stations_from (current_section st) ls \<and>
         current_section st' = section_after (current_section st) ls \<and>
         length (p_stations st')
           = length (p_stations st) + length (station_lines_from (current_section st) ls)"
  using assms
proof (induction ls arbitrary: n st)
  case Nil
  then show ?case
    by (simp add: chargers_from_def stations_from_def station_lines_from_def List.map_filter_def)
next
  case (Cons raw rest)
  from Cons.prems(1) obtain st1 where
    l: "parse_line n raw st = Inr st1" and r: "parse_lines (Suc n) rest st1 = Inr st'"
    by (auto split: sum.splits)
  note a = parse_line_ok[OF l Cons.prems(2)]
  from a have ok1: "state_ok st1" by blast
  note b = Cons.IH[OF r ok1]
  from a b show ?case
    by (simp add: chargers_from_Cons[of _ raw rest] station_lines_from_Cons[of _ raw rest]
        stations_from_Cons[of _ raw rest] section_after_single[of _ raw rest])
qed

lemma parse_lines_append:
  "parse_lines n (xs @ ys) st =
     (case parse_lines n xs st of Inl e \<Rightarrow> Inl e
      | Inr st' \<Rightarrow> parse_lines (n + length xs) ys st')"
  by (induction xs arbitrary: n st) (auto split: sum.splits)

lemma parse_lines_error:
  "parse_lines n ls st = Inl e \<Longrightarrow>
     \<exists>i st'. i < length ls \<and> parse_lines n (take i ls) st = Inr st' \<and>
       parse_line (n + i) (ls ! i) st' = Inl e"
proof (induction ls arbitrary: n st)
  case Nil
  then show ?case by simp
next
  case (Cons raw rest)
  show ?case
  proof (cases "parse_line n raw st")
    case (Inl e')
    with Cons.prems have "e' = e" by simp
    with Inl have "0 < length (raw # rest) \<and> parse_lines n (take 0 (raw # rest)) st = Inr st \<and>
       parse_line (n + 0) ((raw # rest) ! 0) st = Inl e" by simp
    then show ?thesis by blast
  next
    case (Inr st1)
    with Cons.prems have "parse_lines (Suc n) rest st1 = Inl e" by simp
    from Cons.IH[OF this] obtain i st' where
      i: "i < length rest" "parse_lines (Suc n) (take i rest) st1 = Inr st'"
         "parse_line (Suc n + i) (rest ! i) st' = Inl e" by blast
    with Inr have "Suc i < length (raw # rest) \<and>
       parse_lines n (take (Suc i) (raw # rest)) st = Inr st' \<and>
       parse_line (n + Suc i) ((raw # rest) ! Suc i) st' = Inl e" by simp
    then show ?thesis by blast
  qed
qed

lemma parse_lines_initial:
  assumes "parse_lines 1 ls initial_state = Inr st"
  shows "state_ok st" and "map fst (p_charger_to_station st) = declared_chargers ls"
    and "current_section st = section_after None ls"
    and "length (p_stations st) = length (station_lines ls)"
    and "map fst (p_stations st) = declared_stations ls"
  using parse_lines_ok[OF assms state_ok_initial]
  by (simp_all add: initial_state_def declared_chargers_def station_lines_def
      declared_stations_def)

text \<open>What \<^const>\<open>parse_input_file\<close> returns satisfies the invariants that the claims about
  the calculator assume.\<close>

lemma parse_establishes_invariants:
  assumes "parse_input_file path outcome = Inr (sts, rps)"
  shows "parser_invariants sts rps \<and> sts \<noteq> []"
proof -
  from assms obtain ls where f: "outcome = File_lines ls"
    by (cases outcome) (auto simp: parse_input_file_def)
  from assms f obtain st where p: "parse_lines 1 ls initial_state = Inr st"
    by (cases "parse_lines 1 ls initial_state") (auto simp: parse_input_file_def)
  from assms f p have ne: "p_stations st \<noteq> []" and s: "sts = p_stations st" "rps = p_reports st"
    by (auto simp: parse_input_file_def split: if_splits)
  from parse_lines_initial(1)[OF p] have
    a1: "distinct (map fst sts)" and
    a2: "all_chargers sts = map fst (p_charger_to_station st)" and
    a3: "distinct (map fst (p_charger_to_station st))" and
    a5: "\<forall>r \<in> set rps.
        fst r \<in> fst ` set (p_charger_to_station st) \<and> fst (snd r) < fst (snd (snd r))"
    by (simp_all add: state_ok_def s)
  have "set (all_chargers sts) = fst ` set (p_charger_to_station st)" by (simp add: a2)
  with a1 a2 a3 a5 have "parser_invariants sts rps" by (simp add: parser_invariants_def)
  with ne s show ?thesis by simp
qed

section \<open>The claims about the parser\<close>

text \<open>
  Claim C6. An input in which zero stations are declared, that is one without a line in
  a Stations section, is rejected with an error; it is the no-stations error when all
  its lines parse. When \<^const>\<open>parse_input_file\<close> returns stations and reports, the
  stations are not empty and the file has as many station lines as stations were
  returned, so at least one.
\<close>

theorem no_stations_rejected:
  "(station_lines ls = [] \<longrightarrow> (\<exists>e. parse_input_file path (File_lines ls) = Inl e)) \<and>
   (station_lines ls = [] \<and> (\<exists>st. parse_lines 1 ls initial_state = Inr st) \<longrightarrow>
      parse_input_file path (File_lines ls) = Inl No_stations_defined) \<and>
   (parse_input_file path (File_lines ls) = Inr (sts, rps) \<longrightarrow>
      sts \<noteq> [] \<and> station_lines ls \<noteq> [] \<and> length sts = length (station_lines ls))"
proof -
  have a: "parse_input_file path (File_lines ls) = Inl No_stations_defined"
    if "station_lines ls = []" and "parse_lines 1 ls initial_state = Inr st" for st
  proof -
    from parse_lines_initial(4)[OF that(2)] that(1) have "p_stations st = []" by simp
    with that(2) show ?thesis by (simp add: parse_input_file_def)
  qed
  have b: "\<exists>e. parse_input_file path (File_lines ls) = Inl e" if "station_lines ls = []"
  proof (cases "parse_lines 1 ls initial_state")
    case (Inl e)
    then show ?thesis by (simp add: parse_input_file_def)
  next
    case (Inr st)
    from a[OF that Inr] show ?thesis by blast
  qed
  have c: "sts \<noteq> [] \<and> station_lines ls \<noteq> [] \<and> length sts = length (station_lines ls)"
    if r: "parse_input_file path (File_lines ls) = Inr (sts, rps)"
  proof -
    from r obtain st where p: "parse_lines 1 ls initial_state = Inr st"
      by (cases "parse_lines 1 ls initial_state") (auto simp: parse_input_file_def)
    from r p have ne: "sts \<noteq> []" and s: "sts = p_stations st"
      by (auto simp: parse_input_file_def split: if_splits)
    from parse_lines_initial(4)[OF p] s have "length sts = length (station_lines ls)" by simp
    with ne show ?thesis by auto
  qed
  from a b c show ?thesis by blast
qed

text \<open>The theorem at a file with only a Reports header, at one with a report but no
  station, and at a file that declares one station without chargers.\<close>

theorem no_stations_rejected_witness:
  "station_lines [''[Charger Availability Reports]\<newline>'', ''\<newline>''] = [] \<and>
   parse_input_file ''input.txt'' (File_lines [''[Charger Availability Reports]\<newline>'', ''\<newline>''])
     = Inl No_stations_defined \<and>
   (\<exists>e. parse_input_file ''input.txt''
           (File_lines [''[Charger Availability Reports]\<newline>'', ''1001 0 100 true\<newline>'']) = Inl e) \<and>
   parse_input_file ''input.txt'' (File_lines [''[Stations]\<newline>'', ''0\<newline>'',
       ''[Charger Availability Reports]\<newline>'']) = Inr ([(0, [])], []) \<and>
   station_lines [''[Stations]\<newline>'', ''0\<newline>'', ''[Charger Availability Reports]\<newline>''] \<noteq> []"
proof -
  let ?a = "[''[Charger Availability Reports]\<newline>'', ''\<newline>'']"
  let ?b = "[''[Charger Availability Reports]\<newline>'', ''1001 0 100 true\<newline>'']"
  let ?c = "[''[Stations]\<newline>'', ''0\<newline>'', ''[Charger Availability Reports]\<newline>'']"
  have sa: "station_lines ?a = []" by code_simp
  have "parse_lines 1 ?a initial_state
      = Inr \<lparr>p_stations = [], p_reports = [], current_section = Some Reports_section,
               p_charger_to_station = []\<rparr>" by code_simp
  then have pa: "\<exists>st. parse_lines 1 ?a initial_state = Inr st" by blast
  have sb: "station_lines ?b = []" by code_simp
  have pc: "parse_input_file ''input.txt'' (File_lines ?c) = Inr ([(0, [])], [])" by code_simp
  from no_stations_rejected[of ?a "''input.txt''"] sa pa
  have 1: "parse_input_file ''input.txt'' (File_lines ?a) = Inl No_stations_defined" by blast
  from no_stations_rejected[of ?b "''input.txt''"] sb
  have 2: "\<exists>e. parse_input_file ''input.txt'' (File_lines ?b) = Inl e" by blast
  from no_stations_rejected[of ?c "''input.txt''" "[(0, [])]" "[]"] pc
  have 3: "station_lines ?c \<noteq> []" by blast
  from sa 1 2 pc 3 show ?thesis by blast
qed

text \<open>
  Claim C7, amended. An error of \<^const>\<open>parse_input_file\<close> is of one of five kinds. The
  file is missing, the file cannot be read, or all lines parse but no station was
  declared: these three carry a cause and no line number. Opening or reading raises a
  \<^verbatim>\<open>ValueError\<close> of its own, which is passed on as it is. Or a line is at fault: then
  the \<open>k - 1\<close> lines before it parse and line \<open>k\<close> raises exactly this error, and the
  error carries the 1-based number \<open>k\<close> of that line, unless a token of the line has more
  digits than the interpreter converts and the error is the interpreter's own.
\<close>

theorem error_reports_line:
  assumes "parse_input_file path outcome = Inl e"
  shows "(outcome = File_missing \<and> e = Input_file_not_found path \<and> error_line e = None) \<or>
         (\<exists>m. outcome = Read_failure m \<and> e = Error_reading_input_file m \<and> error_line e = None) \<or>
         (\<exists>m. outcome = Read_value_error m \<and> e = Unwrapped_read_error m) \<or>
         (\<exists>ls st. outcome = File_lines ls \<and> parse_lines 1 ls initial_state = Inr st \<and>
            e = No_stations_defined \<and> error_line e = None) \<or>
         (\<exists>ls k st. outcome = File_lines ls \<and> 1 \<le> k \<and> k \<le> length ls \<and>
            parse_lines 1 (take (k - 1) ls) initial_state = Inr st \<and>
            parse_line k (ls ! (k - 1)) st = Inl e \<and>
            (error_line e = Some k \<or>
             (\<exists>t \<in> set (py_split (py_strip (ls ! (k - 1)))).
                \<exists>d. py_int t = Inl (Exceeds_digit_limit d) \<and> e = Digit_limit_exceeded d)))"
proof (cases outcome)
  case File_missing
  with assms show ?thesis by (auto simp: parse_input_file_def)
next
  case (Read_failure m)
  with assms show ?thesis by (auto simp: parse_input_file_def)
next
  case (Read_value_error m)
  with assms show ?thesis by (auto simp: parse_input_file_def)
next
  case (File_lines ls)
  show ?thesis
  proof (cases "parse_lines 1 ls initial_state")
    case (Inr st)
    with assms File_lines have "e = No_stations_defined"
      by (auto simp: parse_input_file_def split: if_splits)
    with Inr File_lines show ?thesis by simp
  next
    case (Inl e')
    with assms File_lines have e: "e' = e" by (simp add: parse_input_file_def)
    from parse_lines_error[OF Inl[unfolded e]] obtain i st where
      i: "i < length ls" and p: "parse_lines 1 (take i ls) initial_state = Inr st"
      and l: "parse_line (1 + i) (ls ! i) st = Inl e" by blast
    from parse_line_error[OF l]
    have "error_line e = Some (Suc i) \<or>
       (\<exists>t \<in> set (py_split (py_strip (ls ! (Suc i - 1)))).
          \<exists>d. py_int t = Inl (Exceeds_digit_limit d) \<and> e = Digit_limit_exceeded d)"
      by simp
    moreover have "1 \<le> Suc i" "Suc i \<le> length ls" using i by simp_all
    moreover have "parse_lines 1 (take (Suc i - 1) ls) initial_state = Inr st" using p by simp
    moreover have "parse_line (Suc i) (ls ! (Suc i - 1)) st = Inl e" using l by simp
    ultimately have "\<exists>ls' k st. outcome = File_lines ls' \<and> 1 \<le> k \<and> k \<le> length ls' \<and>
            parse_lines 1 (take (k - 1) ls') initial_state = Inr st \<and>
            parse_line k (ls' ! (k - 1)) st = Inl e \<and>
            (error_line e = Some k \<or>
             (\<exists>t \<in> set (py_split (py_strip (ls' ! (k - 1)))).
                \<exists>d. py_int t = Inl (Exceeds_digit_limit d) \<and> e = Digit_limit_exceeded d))"
      using File_lines by blast
    then show ?thesis by blast
  qed
qed

text \<open>The theorem at the malformed up flag of the specification, on line 5 of the file.\<close>

theorem error_reports_line_witness:
  "parse_input_file ''input.txt''
     (File_lines [''[Stations]\<newline>'', ''0 1001\<newline>'', ''\<newline>'',
                  ''[Charger Availability Reports]\<newline>'', ''1001 0 100 maybe\<newline>''])
     = Inl (Invalid_up_value 5) \<and>
   error_line (Invalid_up_value 5) = Some 5 \<and>
   (\<exists>st. parse_lines 1
           (take 4 [''[Stations]\<newline>'', ''0 1001\<newline>'', ''\<newline>'',
                    ''[Charger Availability Reports]\<newline>'', ''1001 0 100 maybe\<newline>''])
           initial_state = Inr st \<and>
         parse_line 5 ''1001 0 100 maybe\<newline>'' st = Inl (Invalid_up_value 5))"
proof -
  let ?ls = "[''[Stations]\<newline>'', ''0 1001\<newline>'', ''\<newline>'',
              ''[Charger Availability Reports]\<newline>'', ''1001 0 100 maybe\<newline>'']"
  have p: "parse_input_file ''input.txt'' (File_lines ?ls) = Inl (Invalid_up_value 5)"
    by code_simp
  from error_reports_line[OF p]
  obtain ls k st where "File_lines ?ls = File_lines ls"
    and "error_line (Invalid_up_value 5) = Some k"
    and "parse_lines 1 (take (k - 1) ls) initial_state = Inr st"
    and "parse_line k (ls ! (k - 1)) st = Inl (Invalid_up_value 5)"
    by auto
  then have "parse_lines 1 (take 4 ?ls) initial_state = Inr st \<and>
             parse_line 5 ''1001 0 100 maybe\<newline>'' st = Inl (Invalid_up_value 5)"
    by auto
  with p show ?thesis by auto
qed

text \<open>The claim as stated fails for the three errors that no line causes: the messages
  for a missing file, for an unreadable file and for a file without stations carry no
  line number.\<close>

theorem error_without_line_counterexample:
  "parse_input_file ''missing.txt'' File_missing = Inl (Input_file_not_found ''missing.txt'') \<and>
   error_line (Input_file_not_found ''missing.txt'') = None \<and>
   parse_input_file ''unreadable.txt'' (Read_failure ''Permission denied'')
     = Inl (Error_reading_input_file ''Permission denied'') \<and>
   error_line (Error_reading_input_file ''Permission denied'') = None \<and>
   parse_input_file ''empty.txt'' (File_lines []) = Inl No_stations_defined \<and>
   error_line No_stations_defined = None"
  by (simp add: parse_input_file_def initial_state_def)

lemma section_after_append:
  "section_after sec (xs @ ys) = section_after (section_after sec xs) ys"
  by (induction xs arbitrary: sec) auto

lemma chargers_from_append:
  "chargers_from sec (xs @ ys) = chargers_from sec xs @ chargers_from (section_after sec xs) ys"
proof (induction xs arbitrary: sec)
  case Nil
  show ?case by (simp add: chargers_from_def station_lines_from_def)
next
  case (Cons x xs)
  have "chargers_from sec ((x # xs) @ ys)
      = chargers_from sec [x] @ chargers_from (section_after sec [x]) (xs @ ys)"
    using chargers_from_Cons[of sec x "xs @ ys"] by simp
  also have "\<dots> = chargers_from sec [x] @ chargers_from (section_after sec [x]) xs
      @ chargers_from (section_after (section_after sec [x]) xs) ys"
    by (simp add: Cons.IH)
  also have "\<dots> = chargers_from sec (x # xs) @ chargers_from (section_after sec (x # xs)) ys"
    using chargers_from_Cons[of sec x xs] section_after_single[of sec x xs] by simp
  finally show ?case .
qed

lemma chargers_from_station_line:
  assumes "py_strip raw \<noteq> []" and "py_strip raw \<noteq> ''[Stations]''"
    and "py_strip raw \<noteq> ''[Charger Availability Reports]''"
  shows "chargers_from (Some Stations_section) (raw # post)
           = line_chargers (py_strip raw) @ chargers_from (Some Stations_section) post"
  using assms by (simp add: chargers_from_def station_lines_from_def)

lemma duplicate_fails:
  assumes "\<not> distinct (declared_chargers ls)"
  shows "\<exists>e. parse_input_file path (File_lines ls) = Inl e"
proof (cases "parse_lines 1 ls initial_state")
  case (Inl e)
  then show ?thesis by (simp add: parse_input_file_def)
next
  case (Inr st)
  from parse_lines_initial(1,2)[OF Inr] have "distinct (declared_chargers ls)"
    by (simp add: state_ok_def)
  with assms show ?thesis by simp
qed

text \<open>
  Claim C5, amended. Let the lines \<open>pre\<close> parse and end in the Stations section, and let
  the next line \<open>raw\<close> be a station line whose station token is a valid identifier,
  whose charger tokens \<open>before\<close> are accepted, and whose next charger token reads as
  a charger \<open>c\<close> that was declared on an earlier station line or earlier on this line.
  Then \<^const>\<open>parse_input_file\<close> fails with the duplicate-charger error for \<open>c\<close> at the
  number of that line, whatever station the earlier declaration belongs to. Such a file
  declares a charger more than once, and every file that declares a charger more than
  once is rejected with some error.
\<close>

theorem duplicate_charger_rejected:
  assumes pre: "parse_lines 1 pre initial_state = Inr st"
    and sec: "current_section st = Some Stations_section"
    and data: "py_strip raw \<noteq> []" "py_strip raw \<noteq> ''[Stations]''"
      "py_strip raw \<noteq> ''[Charger Availability Reports]''"
    and toks: "py_split (py_strip raw) = tok0 # before @ tok # rest"
    and sid: "py_int tok0 = Inr sid" "0 \<le> sid" "sid \<le> 4294967295"
    and bef: "parse_chargers (Suc (length pre)) sid before (p_charger_to_station st) []
                = Inr (c2s', ids)"
    and c: "py_int tok = Inr c"
    and dup: "c \<in> set (declared_chargers pre) \<union> set (List.map_filter int_value before)"
  shows "parse_input_file path (File_lines (pre @ raw # post))
           = Inl (Duplicate_charger_id c (Suc (length pre))) \<and>
         \<not> distinct (declared_chargers (pre @ raw # post)) \<and>
         (\<forall>ls. \<not> distinct (declared_chargers ls) \<longrightarrow>
            (\<exists>e. parse_input_file path (File_lines ls) = Inl e))"
proof -
  let ?n = "Suc (length pre)"
  note ini = parse_lines_initial[OF pre]
  note ok = parse_chargers_ok[OF bef]
  have keys: "map fst c2s' = declared_chargers pre @ List.map_filter int_value before"
    using ok ini(2) by (simp add: comp_def)
  have "set (map fst c2s') = set (declared_chargers pre) \<union> set (List.map_filter int_value before)"
    by (simp only: keys set_append)
  with dup have mem: "c \<in> fst ` set c2s'" by simp
  have rng: "0 \<le> c \<and> c \<le> 4294967295"
  proof (cases "c \<in> set (declared_chargers pre)")
    case True
    then have "c \<in> fst ` set (p_charger_to_station st)"
      using ini(2) by (metis set_map)
    moreover from ini(1)
    have "\<forall>c \<in> fst ` set (p_charger_to_station st). 0 \<le> c \<and> c \<le> 4294967295"
      unfolding state_ok_def by blast
    ultimately show ?thesis by blast
  next
    case False
    with dup have "c \<in> set (List.map_filter int_value before)" by simp
    with ok show ?thesis by blast
  qed
  have pc: "parse_chargers ?n sid (before @ tok # rest) (p_charger_to_station st) []
      = Inl (Duplicate_charger_id c ?n)"
    using parse_chargers_duplicate[OF bef c _ _ mem] rng by blast
  have ps: "parse_station_line ?n (py_strip raw) st = Inl (Duplicate_charger_id c ?n)"
    using sid pc by (simp add: parse_station_line_def toks)
  have pl: "parse_line ?n raw st = Inl (Duplicate_charger_id c ?n)"
    using data sec ps by (simp add: parse_line_def)
  have "parse_lines 1 (pre @ raw # post) initial_state = Inl (Duplicate_charger_id c ?n)"
    using pre pl by (simp add: parse_lines_append)
  then have a: "parse_input_file path (File_lines (pre @ raw # post))
           = Inl (Duplicate_charger_id c ?n)"
    by (simp add: parse_input_file_def)
  have sa: "section_after None pre = Some Stations_section" using ini(3) sec by simp
  have lc: "line_chargers (py_strip raw)
      = List.map_filter int_value before @ c # List.map_filter int_value rest"
    using map_filter_Cons_Some[of int_value tok c rest] int_value_Inr[OF c]
    by (simp add: line_chargers_def toks map_filter_append)
  have "declared_chargers (pre @ raw # post)
      = declared_chargers pre @ List.map_filter int_value before
          @ c # List.map_filter int_value rest
          @ chargers_from (Some Stations_section) post"
    unfolding declared_chargers_def chargers_from_append sa
    by (simp add: chargers_from_station_line[OF data] lc)
  with dup have b: "\<not> distinct (declared_chargers (pre @ raw # post))" by auto
  from a b duplicate_fails show ?thesis by blast
qed

text \<open>The theorem at the scenario of the specification: charger \<open>1001\<close> of station \<open>0\<close>
  reused under station \<open>1\<close> on line 3.\<close>

theorem duplicate_charger_rejected_witness:
  "parse_input_file ''input.txt''
     (File_lines [''[Stations]\<newline>'', ''0 1001 1002\<newline>'', ''1 1001\<newline>'', ''\<newline>'',
                  ''[Charger Availability Reports]\<newline>'', ''1001 0 100 true\<newline>''])
     = Inl (Duplicate_charger_id 1001 3) \<and>
   declared_chargers [''[Stations]\<newline>'', ''0 1001 1002\<newline>''] = [1001, 1002]"
proof -
  let ?pre = "[''[Stations]\<newline>'', ''0 1001 1002\<newline>'']"
  let ?post = "[''\<newline>'', ''[Charger Availability Reports]\<newline>'', ''1001 0 100 true\<newline>'']"
  let ?st = "\<lparr>p_stations = [(0, [1001, 1002])], p_reports = [],
              current_section = Some Stations_section,
              p_charger_to_station = [(1001, 0), (1002, 0)]\<rparr>"
  have pre: "parse_lines 1 ?pre initial_state = Inr ?st"
    by code_simp
  have sec: "current_section ?st = Some Stations_section" by simp
  have strip: "py_strip ''1 1001\<newline>'' = ''1 1001''" by code_simp
  have data: "py_strip ''1 1001\<newline>'' \<noteq> []" "py_strip ''1 1001\<newline>'' \<noteq> ''[Stations]''"
    "py_strip ''1 1001\<newline>'' \<noteq> ''[Charger Availability Reports]''"
    by (simp_all add: strip)
  have toks: "py_split (py_strip ''1 1001\<newline>'') = ''1'' # [] @ ''1001'' # []"
    unfolding strip by code_simp
  have sid: "py_int ''1'' = Inr 1" "(0::int) \<le> 1" "(1::int) \<le> 4294967295"
    by code_simp+
  have bef: "parse_chargers (Suc (length ?pre)) 1 [] (p_charger_to_station ?st) []
      = Inr (p_charger_to_station ?st, [])" by simp
  have c: "py_int ''1001'' = Inr 1001" by code_simp
  have decl: "declared_chargers ?pre = [1001, 1002]" by code_simp
  have dup: "1001 \<in> set (declared_chargers ?pre) \<union> set (List.map_filter int_value [])"
    by (simp add: decl)
  from duplicate_charger_rejected[OF pre sec data toks sid bef c dup, of "''input.txt''" ?post]
    decl
  show ?thesis by simp
qed

text \<open>The claim as stated fails where another fault comes first: here charger \<open>1001\<close> is
  reused under station \<open>1\<close>, but the token before it on that line is not an integer,
  and the error is the invalid-integer error.\<close>

theorem duplicate_charger_error_counterexample:
  "\<not> distinct (declared_chargers [''[Stations]\<newline>'', ''0 1001\<newline>'', ''1 x 1001\<newline>'']) \<and>
   parse_input_file ''input.txt''
     (File_lines [''[Stations]\<newline>'', ''0 1001\<newline>'', ''1 x 1001\<newline>''])
     = Inl (Invalid_integer 3)"
  by code_simp

lemma py_split_headers:
  "py_split [] = []"
  "py_split ''[Stations]'' = [''[Stations]'']"
  "py_split ''[Charger Availability Reports]'' = [''[Charger'', ''Availability'', ''Reports]'']"
  by code_simp+

lemma int_value_headers:
  "int_value ''[Stations]'' = None" "int_value ''[Charger'' = None"
  by code_simp+

lemma report_fields_SomeD:
  assumes "report_fields raw = Some (c, s, e, u)"
  shows "\<exists>t0 t1 t2 t3. py_split (py_strip raw) = [t0, t1, t2, t3] \<and>
           py_int t0 = Inr c \<and> py_int t1 = Inr s \<and> py_int t2 = Inr e \<and>
           0 \<le> c \<and> c \<le> 4294967295 \<and> 0 \<le> s \<and> s \<le> 18446744073709551615 \<and>
           0 \<le> e \<and> e \<le> 18446744073709551615 \<and> s < e \<and>
           (py_lower t3 = ''true'' \<or> py_lower t3 = ''false'') \<and> u = (py_lower t3 = ''true'')"
  using assms unfolding report_fields_def
  by (auto split: list.splits option.splits if_splits dest!: int_value_SomeD)

lemma report_line_decided:
  assumes rf: "report_fields raw = Some (c, s, e, u)"
    and sec: "current_section st = Some Reports_section"
  shows "parse_line n raw st =
           (if c \<in> fst ` set (p_charger_to_station st)
            then Inr (st\<lparr>p_reports := p_reports st @ [(c, s, e, u)]\<rparr>)
            else Inl (Unknown_charger_id c n))"
proof -
  from report_fields_SomeD[OF rf] obtain t0 t1 t2 t3 where
    sp: "py_split (py_strip raw) = [t0, t1, t2, t3]" and
    i: "py_int t0 = Inr c" "py_int t1 = Inr s" "py_int t2 = Inr e" and
    r: "0 \<le> c" "c \<le> 4294967295" "0 \<le> s" "s \<le> 18446744073709551615"
       "0 \<le> e" "e \<le> 18446744073709551615" "s < e" and
    b: "py_lower t3 = ''true'' \<or> py_lower t3 = ''false''" "u = (py_lower t3 = ''true'')"
    by blast
  have d: "py_strip raw \<noteq> []" "py_strip raw \<noteq> ''[Stations]''"
    "py_strip raw \<noteq> ''[Charger Availability Reports]''"
    using sp py_split_headers by auto
  have pl: "parse_line n raw st = parse_report_line n (py_strip raw) st"
    using d sec by (simp add: parse_line_def)
  have m: "(map_of (p_charger_to_station st) c = None) = (c \<notin> fst ` set (p_charger_to_station st))"
    by (simp add: map_of_eq_None_iff)
  show ?thesis
    unfolding pl parse_report_line_def sp Let_def
    using i r b m by auto
qed

lemma station_fields_SomeD:
  assumes "station_fields raw = Some (sid, cs)"
  shows "\<exists>t ts. py_split (py_strip raw) = t # ts \<and> py_int t = Inr sid \<and>
           0 \<le> sid \<and> sid \<le> 4294967295 \<and>
           list_all (\<lambda>p. case int_value p of None \<Rightarrow> False
                          | Some c \<Rightarrow> 0 \<le> c \<and> c \<le> 4294967295) ts \<and>
           cs = List.map_filter int_value ts"
  using assms unfolding station_fields_def
  by (auto split: list.splits option.splits if_splits dest!: int_value_SomeD)

lemma station_line_decided:
  assumes p: "parse_lines 1 pre initial_state = Inr st"
    and sec: "current_section st = Some Stations_section"
    and sf: "station_fields raw = Some (sid, cs)"
  shows "(distinct (declared_chargers pre @ cs) \<and> sid \<notin> set (declared_stations pre) \<longrightarrow>
            parse_line n raw st =
              Inr (st\<lparr>p_stations := p_stations st @ [(sid, cs)],
                      p_charger_to_station :=
                        p_charger_to_station st @ map (\<lambda>c. (c, sid)) cs\<rparr>)) \<and>
         (\<not> (distinct (declared_chargers pre @ cs) \<and> sid \<notin> set (declared_stations pre)) \<longrightarrow>
            (\<exists>e. parse_line n raw st = Inl e))"
proof -
  from station_fields_SomeD[OF sf] obtain t ts where
    sp: "py_split (py_strip raw) = t # ts" and t: "py_int t = Inr sid" and
    r: "0 \<le> sid" "sid \<le> 4294967295" and
    la: "list_all (\<lambda>p. case int_value p of None \<Rightarrow> False
                          | Some c \<Rightarrow> 0 \<le> c \<and> c \<le> 4294967295) ts" and
    cs: "cs = List.map_filter int_value ts"
    by blast
  note ini = parse_lines_initial[OF p]
  have d: "py_strip raw \<noteq> []" "py_strip raw \<noteq> ''[Stations]''"
    "py_strip raw \<noteq> ''[Charger Availability Reports]''"
    using sp t py_split_headers int_value_headers int_value_Inr[OF t] by auto
  have pl: "parse_line n raw st = parse_station_line n (py_strip raw) st"
    using d sec by (simp add: parse_line_def)
  have keys: "fst ` set (p_stations st) = set (declared_stations pre)"
    using ini(5) by (metis set_map)
  have lc: "line_chargers (py_strip raw) = cs" by (simp add: line_chargers_def sp cs)
  have ls: "line_station (py_strip raw) = Some sid"
    by (simp add: line_station_def sp int_value_Inr[OF t])
  have a: "parse_line n raw st =
              Inr (st\<lparr>p_stations := p_stations st @ [(sid, cs)],
                      p_charger_to_station :=
                        p_charger_to_station st @ map (\<lambda>c. (c, sid)) cs\<rparr>)"
    if dd: "distinct (declared_chargers pre @ cs)" and ns: "sid \<notin> set (declared_stations pre)"
  proof -
    have "distinct (map fst (p_charger_to_station st) @ List.map_filter int_value ts)"
      using dd by (simp only: ini(2) cs)
    from parse_chargers_succeeds[OF la this, of n sid "[]"]
    have pc: "parse_chargers n sid ts (p_charger_to_station st) []
        = Inr (p_charger_to_station st @ map (\<lambda>c. (c, sid)) cs, cs)"
      by (simp add: cs)
    have fresh: "sid \<notin> fst ` set (p_stations st)" using ns keys by simp
    then have nd: "map_of (p_stations st) sid = None" by (simp add: map_of_eq_None_iff)
    show ?thesis
      unfolding pl parse_station_line_def sp
      using t r pc nd by (simp add: update_fresh[OF fresh])
  qed
  have b: "\<exists>e. parse_line n raw st = Inl e"
    if nn: "\<not> (distinct (declared_chargers pre @ cs) \<and> sid \<notin> set (declared_stations pre))"
  proof (cases "parse_line n raw st")
    case (Inl e)
    then show ?thesis by blast
  next
    case (Inr st')
    with pl have ps: "parse_station_line n (py_strip raw) st = Inr st'" by simp
    from parse_station_line_ok[OF ps] obtain sid' where
      f: "sid' \<notin> fst ` set (p_stations st)" and l': "line_station (py_strip raw) = Some sid'" and
      fr: "\<forall>c \<in> set (line_chargers (py_strip raw)).
             0 \<le> c \<and> c \<le> 4294967295 \<and> c \<notin> fst ` set (p_charger_to_station st)" and
      di: "distinct (line_chargers (py_strip raw))"
      by blast
    from l' ls have "sid' = sid" by simp
    with f keys have ns: "sid \<notin> set (declared_stations pre)" by simp
    have "distinct (map fst (p_charger_to_station st))" using ini(1) by (simp add: state_ok_def)
    then have "distinct (declared_chargers pre)" by (simp only: ini(2))
    moreover have "set (declared_chargers pre) = fst ` set (p_charger_to_station st)"
      using ini(2) by (metis set_map)
    ultimately have "distinct (declared_chargers pre @ cs)"
      using fr di unfolding lc by auto
    with ns nn show ?thesis by blast
  qed
  from a b show ?thesis by blast
qed

text \<open>
  Claim C10. In every state and at every line number a \<^verbatim>\<open>[Stations]\<close> header makes
  Stations the current section and a \<^verbatim>\<open>[Charger Availability Reports]\<close> header makes
  Reports the current section and nothing else changes, so headers may repeat and
  interleave. After lines \<open>pre\<close> that parse and end in the Reports section, a report line
  that is well formed in itself is accepted, and its report appended, exactly when its
  charger was declared on a station line of \<open>pre\<close>; otherwise it raises the
  unknown-charger error. After lines \<open>pre\<close> that parse and end in the Stations section,
  whatever sections and reports they hold, a station line that is well formed in itself
  is accepted, and its station and chargers registered, exactly when its station and
  its chargers were not declared in \<open>pre\<close> and its chargers are distinct. The two files
  show a Stations section resumed after reports, whose later station line is accepted,
  and a report that precedes the declaration of its charger.
\<close>

theorem sections_interleave:
  "(py_strip raw = ''[Stations]'' \<longrightarrow>
      parse_line n raw st = Inr (st\<lparr>current_section := Some Stations_section\<rparr>)) \<and>
   (py_strip raw = ''[Charger Availability Reports]'' \<longrightarrow>
      parse_line n raw st = Inr (st\<lparr>current_section := Some Reports_section\<rparr>)) \<and>
   (parse_lines 1 pre initial_state = Inr st \<and> current_section st = Some Reports_section \<and>
    report_fields raw = Some (c, s, e, u) \<longrightarrow>
      parse_line n raw st =
        (if c \<in> set (declared_chargers pre)
         then Inr (st\<lparr>p_reports := p_reports st @ [(c, s, e, u)]\<rparr>)
         else Inl (Unknown_charger_id c n))) \<and>
   (parse_lines 1 pre initial_state = Inr st \<and> current_section st = Some Stations_section \<and>
    station_fields raw = Some (sid, cs) \<longrightarrow>
      (distinct (declared_chargers pre @ cs) \<and> sid \<notin> set (declared_stations pre) \<longrightarrow>
         parse_line n raw st =
           Inr (st\<lparr>p_stations := p_stations st @ [(sid, cs)],
                   p_charger_to_station :=
                     p_charger_to_station st @ map (\<lambda>c. (c, sid)) cs\<rparr>)) \<and>
      (\<not> (distinct (declared_chargers pre @ cs) \<and> sid \<notin> set (declared_stations pre)) \<longrightarrow>
         (\<exists>err. parse_line n raw st = Inl err))) \<and>
   parse_input_file path
     (File_lines [''[Charger Availability Reports]\<newline>'', ''[Stations]\<newline>'', ''0 1\<newline>'',
                  ''[Charger Availability Reports]\<newline>'', ''1 0 10 true\<newline>'',
                  ''[Stations]\<newline>'', ''[Stations]\<newline>'', ''1 2\<newline>'',
                  ''[Charger Availability Reports]\<newline>'', ''2 0 5 false\<newline>''])
     = Inr ([(0, [1]), (1, [2])], [(1, 0, 10, True), (2, 0, 5, False)]) \<and>
   parse_input_file path
     (File_lines [''[Stations]\<newline>'', ''0 1\<newline>'',
                  ''[Charger Availability Reports]\<newline>'', ''2 0 5 false\<newline>'',
                  ''[Stations]\<newline>'', ''1 2\<newline>''])
     = Inl (Unknown_charger_id 2 4)"
proof -
  have a: "py_strip raw = ''[Stations]'' \<longrightarrow>
      parse_line n raw st = Inr (st\<lparr>current_section := Some Stations_section\<rparr>)"
    by (simp add: parse_line_def)
  have b: "py_strip raw = ''[Charger Availability Reports]'' \<longrightarrow>
      parse_line n raw st = Inr (st\<lparr>current_section := Some Reports_section\<rparr>)"
    by (simp add: parse_line_def)
  have c: "parse_lines 1 pre initial_state = Inr st \<and> current_section st = Some Reports_section \<and>
    report_fields raw = Some (c, s, e, u) \<longrightarrow>
      parse_line n raw st =
        (if c \<in> set (declared_chargers pre)
         then Inr (st\<lparr>p_reports := p_reports st @ [(c, s, e, u)]\<rparr>)
         else Inl (Unknown_charger_id c n))"
  proof (intro impI, elim conjE)
    assume p: "parse_lines 1 pre initial_state = Inr st"
      and sec: "current_section st = Some Reports_section"
      and rf: "report_fields raw = Some (c, s, e, u)"
    have "set (map fst (p_charger_to_station st)) = set (declared_chargers pre)"
      by (simp only: parse_lines_initial(2)[OF p])
    then have "fst ` set (p_charger_to_station st) = set (declared_chargers pre)" by simp
    with report_line_decided[OF rf sec, of n] show "parse_line n raw st =
        (if c \<in> set (declared_chargers pre)
         then Inr (st\<lparr>p_reports := p_reports st @ [(c, s, e, u)]\<rparr>)
         else Inl (Unknown_charger_id c n))" by simp
  qed
  have s: "parse_lines 1 pre initial_state = Inr st \<and> current_section st = Some Stations_section \<and>
    station_fields raw = Some (sid, cs) \<longrightarrow>
      (distinct (declared_chargers pre @ cs) \<and> sid \<notin> set (declared_stations pre) \<longrightarrow>
         parse_line n raw st =
           Inr (st\<lparr>p_stations := p_stations st @ [(sid, cs)],
                   p_charger_to_station :=
                     p_charger_to_station st @ map (\<lambda>c. (c, sid)) cs\<rparr>)) \<and>
      (\<not> (distinct (declared_chargers pre @ cs) \<and> sid \<notin> set (declared_stations pre)) \<longrightarrow>
         (\<exists>err. parse_line n raw st = Inl err))"
    using station_line_decided[of pre st raw sid cs n] by blast
  have d: "parse_input_file path
     (File_lines [''[Charger Availability Reports]\<newline>'', ''[Stations]\<newline>'', ''0 1\<newline>'',
                  ''[Charger Availability Reports]\<newline>'', ''1 0 10 true\<newline>'',
                  ''[Stations]\<newline>'', ''[Stations]\<newline>'', ''1 2\<newline>'',
                  ''[Charger Availability Reports]\<newline>'', ''2 0 5 false\<newline>''])
     = Inr ([(0, [1]), (1, [2])], [(1, 0, 10, True), (2, 0, 5, False)])"
    unfolding parse_input_file_def by code_simp
  have e: "parse_input_file path
     (File_lines [''[Stations]\<newline>'', ''0 1\<newline>'',
                  ''[Charger Availability Reports]\<newline>'', ''2 0 5 false\<newline>'',
                  ''[Stations]\<newline>'', ''1 2\<newline>''])
     = Inl (Unknown_charger_id 2 4)"
    unfolding parse_input_file_def by code_simp
  from a b c s d e show ?thesis by blast
qed

text \<open>The theorem after a Stations section that declares charger \<open>1\<close>: a report on
  charger \<open>1\<close> is appended, one on charger \<open>2\<close> is refused, and a further header
  switches back to Stations. After two reports and a second \<^verbatim>\<open>[Stations]\<close> header the
  station line \<^verbatim>\<open>1 2\<close> is accepted and the station line \<^verbatim>\<open>1 1\<close>, which reuses charger
  \<open>1\<close>, is refused.\<close>

theorem sections_interleave_witness:
  "parse_lines 1 [''[Stations]\<newline>'', ''0 1\<newline>'', ''[Charger Availability Reports]\<newline>'']
     initial_state
     = Inr \<lparr>p_stations = [(0, [1])], p_reports = [],
             current_section = Some Reports_section, p_charger_to_station = [(1, 0)]\<rparr> \<and>
   parse_line 4 ''1 0 10 true\<newline>''
     \<lparr>p_stations = [(0, [1])], p_reports = [],
        current_section = Some Reports_section, p_charger_to_station = [(1, 0)]\<rparr>
     = Inr \<lparr>p_stations = [(0, [1])], p_reports = [(1, 0, 10, True)],
             current_section = Some Reports_section, p_charger_to_station = [(1, 0)]\<rparr> \<and>
   parse_line 4 ''2 0 10 true\<newline>''
     \<lparr>p_stations = [(0, [1])], p_reports = [],
        current_section = Some Reports_section, p_charger_to_station = [(1, 0)]\<rparr>
     = Inl (Unknown_charger_id 2 4) \<and>
   parse_line 4 '' [Stations]\<newline>''
     \<lparr>p_stations = [(0, [1])], p_reports = [],
        current_section = Some Reports_section, p_charger_to_station = [(1, 0)]\<rparr>
     = Inr \<lparr>p_stations = [(0, [1])], p_reports = [],
             current_section = Some Stations_section, p_charger_to_station = [(1, 0)]\<rparr> \<and>
   parse_lines 1 [''[Stations]\<newline>'', ''0 1\<newline>'', ''[Charger Availability Reports]\<newline>'',
                  ''1 0 10 true\<newline>'', ''1 5 20 false\<newline>'', ''[Stations]\<newline>'']
     initial_state
     = Inr \<lparr>p_stations = [(0, [1])], p_reports = [(1, 0, 10, True), (1, 5, 20, False)],
             current_section = Some Stations_section, p_charger_to_station = [(1, 0)]\<rparr> \<and>
   parse_line 7 ''1 2\<newline>''
     \<lparr>p_stations = [(0, [1])], p_reports = [(1, 0, 10, True), (1, 5, 20, False)],
        current_section = Some Stations_section, p_charger_to_station = [(1, 0)]\<rparr>
     = Inr \<lparr>p_stations = [(0, [1]), (1, [2])],
             p_reports = [(1, 0, 10, True), (1, 5, 20, False)],
             current_section = Some Stations_section,
             p_charger_to_station = [(1, 0), (2, 1)]\<rparr> \<and>
   (\<exists>err. parse_line 7 ''1 1\<newline>''
     \<lparr>p_stations = [(0, [1])], p_reports = [(1, 0, 10, True), (1, 5, 20, False)],
        current_section = Some Stations_section, p_charger_to_station = [(1, 0)]\<rparr>
     = Inl err)"
proof -
  let ?pre = "[''[Stations]\<newline>'', ''0 1\<newline>'', ''[Charger Availability Reports]\<newline>'']"
  let ?st = "\<lparr>p_stations = [(0, [1])], p_reports = [],
        current_section = Some Reports_section, p_charger_to_station = [(1, 0)]\<rparr>"
  let ?pre2 = "[''[Stations]\<newline>'', ''0 1\<newline>'', ''[Charger Availability Reports]\<newline>'',
                ''1 0 10 true\<newline>'', ''1 5 20 false\<newline>'', ''[Stations]\<newline>'']"
  let ?st2 = "\<lparr>p_stations = [(0, [1])], p_reports = [(1, 0, 10, True), (1, 5, 20, False)],
        current_section = Some Stations_section, p_charger_to_station = [(1, 0)]\<rparr>"
  have p: "parse_lines 1 ?pre initial_state = Inr ?st" by code_simp
  have sec: "current_section ?st = Some Reports_section" by simp
  have d: "declared_chargers ?pre = [1]" by code_simp
  have r1: "report_fields ''1 0 10 true\<newline>'' = Some (1, 0, 10, True)" by code_simp
  have r2: "report_fields ''2 0 10 true\<newline>'' = Some (2, 0, 10, True)" by code_simp
  have h: "py_strip '' [Stations]\<newline>'' = ''[Stations]''" by code_simp
  have p2: "parse_lines 1 ?pre2 initial_state = Inr ?st2" by code_simp
  have sec2: "current_section ?st2 = Some Stations_section" by simp
  have d2: "declared_chargers ?pre2 = [1]" "declared_stations ?pre2 = [0]" by code_simp+
  have s1: "station_fields ''1 2\<newline>'' = Some (1, [2])" by code_simp
  have s2: "station_fields ''1 1\<newline>'' = Some (1, [1])" by code_simp
  from sections_interleave[of "''1 0 10 true\<newline>''" 4 ?st ?pre 1 0 10 True 0 "[]" "''f''"]
    p sec r1
  have 1: "parse_line 4 ''1 0 10 true\<newline>'' ?st
      = Inr (?st\<lparr>p_reports := p_reports ?st @ [(1, 0, 10, True)]\<rparr>)"
    by (simp add: d)
  from sections_interleave[of "''2 0 10 true\<newline>''" 4 ?st ?pre 2 0 10 True 0 "[]" "''f''"]
    p sec r2
  have 2: "parse_line 4 ''2 0 10 true\<newline>'' ?st = Inl (Unknown_charger_id 2 4)"
    by (simp add: d)
  from sections_interleave[of "'' [Stations]\<newline>''" 4 ?st ?pre 1 0 10 True 0 "[]" "''f''"] h
  have 3: "parse_line 4 '' [Stations]\<newline>'' ?st
      = Inr (?st\<lparr>current_section := Some Stations_section\<rparr>)"
    by blast
  from sections_interleave[of "''1 2\<newline>''" 7 ?st2 ?pre2 1 0 10 True 1 "[2]" "''f''"]
    p2 sec2 s1
  have 4: "parse_line 7 ''1 2\<newline>'' ?st2
      = Inr (?st2\<lparr>p_stations := p_stations ?st2 @ [(1, [2])],
                   p_charger_to_station := p_charger_to_station ?st2 @ map (\<lambda>c. (c, 1)) [2]\<rparr>)"
    by (simp add: d2)
  from sections_interleave[of "''1 1\<newline>''" 7 ?st2 ?pre2 1 0 10 True 1 "[1]" "''f''"]
    p2 sec2 s2
  have 5: "\<exists>err. parse_line 7 ''1 1\<newline>'' ?st2 = Inl err"
    by (simp add: d2)
  from p 1 2 3 p2 4 5 show ?thesis by simp
qed

end
